theory Spec2Isabelle
  imports Complex_Main "HOL-Library.Sublist" "HOL-Library.Multiset"
begin

section \<open>The tabular viewer of rview: filter, sort, render window, resize, error page\<close>

text \<open>
  The viewer lives in \<^verbatim>\<open>SimpleDataViewerPanel\<close>: the extension side builds the page
  (\<^verbatim>\<open>_loadData\<close>, \<^verbatim>\<open>_getErrorHtml\<close>, \<^verbatim>\<open>_escapeHtml\<close>) and the script inside
  \<^verbatim>\<open>_getDataHtml\<close> holds the engine (\<^verbatim>\<open>applyFiltersAndSort\<close>, the header-click
  handler, \<^verbatim>\<open>setupInfiniteScroll\<close>, the resize handlers).

  Strings are \<^typ>\<open>string\<close>; the host's string functions are modelled on ASCII text:
  \<^verbatim>\<open>toLowerCase\<close> maps \<^verbatim>\<open>A-Z\<close> to \<^verbatim>\<open>a-z\<close>, white space is the six ASCII
  white-space characters.
\<close>

subsection \<open>Host string functions\<close>

definition toLowerChar :: "char \<Rightarrow> char" where
  "toLowerChar c =
     (let n = (of_char c :: nat) in if 65 \<le> n \<and> n \<le> 90 then char_of (n + 32) else c)"

definition toLowerCase :: "string \<Rightarrow> string" where
  "toLowerCase s = map toLowerChar s"

definition isWhiteSpace :: "char \<Rightarrow> bool" where
  "isWhiteSpace c = (let n = (of_char c :: nat) in (9 \<le> n \<and> n \<le> 13) \<or> n = 32)"

definition trim :: "string \<Rightarrow> string" where
  "trim s = rev (dropWhile isWhiteSpace (rev (dropWhile isWhiteSpace s)))"

text \<open>\<^verbatim>\<open>s.includes(t)\<close>: \<open>t\<close> occurs in \<open>s\<close> as a contiguous run.\<close>

fun str_includes :: "string \<Rightarrow> string \<Rightarrow> bool" where
  "str_includes [] t = (t = [])"
| "str_includes (c # s) t = (prefix t (c # s) \<or> str_includes s t)"

subsection \<open>Payload rows and display rows\<close>

type_synonym row = "string list"

record displayRow =
  data :: row
  originalIndex :: nat

text \<open>\<^verbatim>\<open>row[col] || ''\<close>: a cell beyond the end of the row is \<^verbatim>\<open>undefined\<close>, hence \<^verbatim>\<open>''\<close>.\<close>

definition cellValue :: "row \<Rightarrow> nat \<Rightarrow> string" where
  "cellValue r c = (if c < length r then r ! c else [])"

text \<open>\<^verbatim>\<open>originalRows.map((row, i) => ({ data: row, originalIndex: i }))\<close>, from index \<open>i\<close> on.\<close>

fun mapWithIndex :: "nat \<Rightarrow> row list \<Rightarrow> displayRow list" where
  "mapWithIndex i [] = []"
| "mapWithIndex i (r # rs) = \<lparr>data = r, originalIndex = i\<rparr> # mapWithIndex (Suc i) rs"

subsection \<open>The filter step of \<^verbatim>\<open>applyFiltersAndSort\<close>\<close>

text \<open>
  The \<^verbatim>\<open>filters\<close> object. The page has one filter box per column, \<^verbatim>\<open>data-col\<close> being its
  position, so the boxes are the list of their texts. A box whose lowercased, trimmed
  text is empty adds no key. The keys are distinct and ascending, which is also the
  order of \<^verbatim>\<open>Object.keys\<close>; the object is the association list.
\<close>

fun getFilters :: "nat \<Rightarrow> string list \<Rightarrow> (nat \<times> string) list" where
  "getFilters c [] = []"
| "getFilters c (inp # inputs) =
     (let v = trim (toLowerCase inp)
      in if v \<noteq> [] then (c, v) # getFilters (Suc c) inputs else getFilters (Suc c) inputs)"

text \<open>
  \<^verbatim>\<open>filters[col]\<close>; a missing key would read \<^verbatim>\<open>undefined\<close>, which \<^verbatim>\<open>includes\<close> turns
  into the text \<^verbatim>\<open>undefined\<close>.
\<close>

definition filterAt :: "(nat \<times> string) list \<Rightarrow> nat \<Rightarrow> string" where
  "filterAt filters c = (case map_of filters c of Some p \<Rightarrow> p | None \<Rightarrow> ''undefined'')"

text \<open>The inner loop over \<^verbatim>\<open>filterCols\<close>, with its \<^verbatim>\<open>break\<close> at the first mismatch.\<close>

fun rowMatches :: "(nat \<times> string) list \<Rightarrow> nat list \<Rightarrow> row \<Rightarrow> bool" where
  "rowMatches filters [] r = True"
| "rowMatches filters (c # cs) r =
     (if \<not> str_includes (toLowerCase (cellValue r c)) (filterAt filters c) then False
      else rowMatches filters cs r)"

text \<open>The outer loop over \<^verbatim>\<open>originalRows\<close>, from index \<open>i\<close> on.\<close>

fun filterLoop :: "(nat \<times> string) list \<Rightarrow> nat \<Rightarrow> row list \<Rightarrow> displayRow list" where
  "filterLoop filters i [] = []"
| "filterLoop filters i (r # rs) =
     (if rowMatches filters (map fst filters) r
      then \<lparr>data = r, originalIndex = i\<rparr> # filterLoop filters (Suc i) rs
      else filterLoop filters (Suc i) rs)"

definition filterRows :: "(nat \<times> string) list \<Rightarrow> row list \<Rightarrow> displayRow list" where
  "filterRows filters originalRows =
     (if length (map fst filters) = 0 then mapWithIndex 0 originalRows
      else filterLoop filters 0 originalRows)"

text \<open>The display row of an (index, row) pair.\<close>

definition toDisplayRow :: "nat \<times> row \<Rightarrow> displayRow" where
  "toDisplayRow p = \<lparr>data = snd p, originalIndex = fst p\<rparr>"

subsection \<open>Numbers of the host: \<^verbatim>\<open>parseFloat\<close>, subtraction, negation\<close>

text \<open>
  A number of the host is not-a-number, an infinity, or a finite value. The finite values
  are carried exactly, as rationals: the rounding of a decimal text to a binary64 value is
  not modelled. The sign of a difference of two finite values and whether it is zero, which
  is all the comparator and the sort look at, are then those of the exact difference.
\<close>

datatype jsnum = NaN | Finite rat | PosInfinity | NegInfinity

fun jsSub :: "jsnum \<Rightarrow> jsnum \<Rightarrow> jsnum" where
  "jsSub NaN y = NaN"
| "jsSub x NaN = NaN"
| "jsSub (Finite a) (Finite b) = Finite (a - b)"
| "jsSub (Finite a) PosInfinity = NegInfinity"
| "jsSub (Finite a) NegInfinity = PosInfinity"
| "jsSub PosInfinity PosInfinity = NaN"
| "jsSub PosInfinity y = PosInfinity"
| "jsSub NegInfinity NegInfinity = NaN"
| "jsSub NegInfinity y = NegInfinity"

fun jsNeg :: "jsnum \<Rightarrow> jsnum" where
  "jsNeg NaN = NaN"
| "jsNeg (Finite a) = Finite (- a)"
| "jsNeg PosInfinity = NegInfinity"
| "jsNeg NegInfinity = PosInfinity"

text \<open>\<^verbatim>\<open>v > 0\<close> and \<^verbatim>\<open>v < 0\<close> on a number.\<close>

fun isPositive :: "jsnum \<Rightarrow> bool" where
  "isPositive (Finite a) = (0 < a)"
| "isPositive PosInfinity = True"
| "isPositive v = False"

fun isNegative :: "jsnum \<Rightarrow> bool" where
  "isNegative (Finite a) = (a < 0)"
| "isNegative NegInfinity = True"
| "isNegative v = False"

definition isDigit :: "char \<Rightarrow> bool" where
  "isDigit c = (let n = (of_char c :: nat) in 48 \<le> n \<and> n \<le> 57)"

definition digitValue :: "char \<Rightarrow> nat" where
  "digitValue c = of_char c - 48"

definition digitsValue :: "string \<Rightarrow> nat" where
  "digitsValue ds = foldl (\<lambda>acc c. 10 * acc + digitValue c) 0 ds"

definition pow10 :: "int \<Rightarrow> rat" where
  "pow10 e = (if 0 \<le> e then 10 ^ nat e else 1 / 10 ^ nat (- e))"

text \<open>
  The exponent of a decimal literal: \<^verbatim>\<open>e\<close> or \<^verbatim>\<open>E\<close>, an optional sign, digits. Text
  that is no exponent part (no digit after the sign) is left unread: exponent 0.
\<close>

definition exponentPart :: "string \<Rightarrow> int" where
  "exponentPart s =
     (if s \<noteq> [] \<and> (hd s = CHR ''e'' \<or> hd s = CHR ''E'') then
        (let r = tl s in
         if r \<noteq> [] \<and> hd r = CHR ''-'' then - int (digitsValue (takeWhile isDigit (tl r)))
         else if r \<noteq> [] \<and> hd r = CHR ''+'' then int (digitsValue (takeWhile isDigit (tl r)))
         else int (digitsValue (takeWhile isDigit r)))
      else 0)"

text \<open>
  \<^verbatim>\<open>parseFloat\<close> of the host, after ECMAScript: leading white space is skipped, then the
  longest prefix that is a decimal literal is read (a sign, then \<^verbatim>\<open>Infinity\<close> or digits
  with an optional fraction and exponent); what follows is ignored; no such prefix gives
  \<^verbatim>\<open>NaN\<close>.
\<close>

definition parseFloat :: "string \<Rightarrow> jsnum" where
  "parseFloat s =
     (let t = dropWhile isWhiteSpace s;
          neg = (t \<noteq> [] \<and> hd t = CHR ''-'');
          u = (if t \<noteq> [] \<and> (hd t = CHR ''-'' \<or> hd t = CHR ''+'') then tl t else t)
      in if prefix ''Infinity'' u then (if neg then NegInfinity else PosInfinity)
         else
           (let ip = takeWhile isDigit u;
                r1 = dropWhile isDigit u;
                hasDot = (r1 \<noteq> [] \<and> hd r1 = CHR ''.'');
                fp = (if hasDot then takeWhile isDigit (tl r1) else []);
                r2 = (if hasDot then dropWhile isDigit (tl r1) else r1)
            in if ip = [] \<and> fp = [] then NaN
               else Finite ((if neg then - 1 else 1)
                      * (of_nat (digitsValue ip) + of_nat (digitsValue fp) / 10 ^ length fp)
                      * pow10 (exponentPart r2))))"

subsection \<open>The sort step of \<^verbatim>\<open>applyFiltersAndSort\<close>\<close>

datatype direction = Asc | Desc

record sortKey =
  col :: nat
  dir :: direction

text \<open>
  \<^verbatim>\<open>valA.localeCompare(valB, undefined, { numeric: true, sensitivity: 'base' })\<close> is the
  host's collation (its locale data are not part of the program): it is a parameter, called
  with the locale argument and the options the code passes.
\<close>

datatype sensitivity = Base | Accent | CaseLevel | Variant

record collatorOptions =
  numeric :: bool
  sensitivity :: sensitivity

type_synonym localeCompare = "string \<Rightarrow> string \<Rightarrow> string option \<Rightarrow> collatorOptions \<Rightarrow> int"

text \<open>The body of the loop over the sort stack, up to \<^verbatim>\<open>cmp\<close>.\<close>

definition keyCompare :: "localeCompare \<Rightarrow> nat \<Rightarrow> displayRow \<Rightarrow> displayRow \<Rightarrow> jsnum" where
  "keyCompare lc c a b =
     (let valA = cellValue (data a) c;
          valB = cellValue (data b) c;
          numA = parseFloat valA;
          numB = parseFloat valB
      in if numA \<noteq> NaN \<and> numB \<noteq> NaN then jsSub numA numB
         else Finite (of_int (lc valA valB None \<lparr>numeric = True, sensitivity = Base\<rparr>)))"

text \<open>The comparator given to \<^verbatim>\<open>filtered.sort\<close>: the first key with \<^verbatim>\<open>cmp !== 0\<close> decides.\<close>

fun comparator :: "localeCompare \<Rightarrow> sortKey list \<Rightarrow> displayRow \<Rightarrow> displayRow \<Rightarrow> jsnum" where
  "comparator lc [] a b = Finite 0"
| "comparator lc (s # rest) a b =
     (let cmp = keyCompare lc (col s) a b
      in if cmp \<noteq> Finite 0 then (if dir s = Asc then cmp else jsNeg cmp)
         else comparator lc rest a b)"

text \<open>
  \<^verbatim>\<open>Array.prototype.sort\<close> is the host's, not the program's: the sort step takes it as a
  parameter. ECMAScript has it call the comparator through \<open>SortCompare\<close>, which reads a
  \<^verbatim>\<open>NaN\<close> result as \<^verbatim>\<open>+0\<close>, and fixes its result only when the comparator is a
  consistent comparator for the elements: then the result is a rearrangement of the
  elements that is sorted and keeps elements that compare equal in their order. For any
  other comparator the order is implementation-defined.
\<close>

definition sortCompare :: "('a \<Rightarrow> 'a \<Rightarrow> jsnum) \<Rightarrow> 'a \<Rightarrow> 'a \<Rightarrow> jsnum" where
  "sortCompare comparefn x y = (case comparefn x y of NaN \<Rightarrow> Finite 0 | v \<Rightarrow> v)"

text \<open>
  A consistent comparator for a set of values, after ECMAScript: every value compares
  equal to itself, comparing equal is symmetric and transitive, and so are comparing
  below and comparing above transitive.
\<close>

definition consistentComparator :: "('a \<Rightarrow> 'a \<Rightarrow> jsnum) \<Rightarrow> 'a set \<Rightarrow> bool" where
  "consistentComparator comparefn S \<longleftrightarrow>
     (\<forall>a \<in> S. \<forall>b \<in> S. \<forall>c \<in> S.
        sortCompare comparefn a a = Finite 0
      \<and> (sortCompare comparefn a b = Finite 0 \<longrightarrow> sortCompare comparefn b a = Finite 0)
      \<and> (sortCompare comparefn a b = Finite 0 \<and> sortCompare comparefn b c = Finite 0 \<longrightarrow>
           sortCompare comparefn a c = Finite 0)
      \<and> (isNegative (sortCompare comparefn a b) \<and> isNegative (sortCompare comparefn b c) \<longrightarrow>
           isNegative (sortCompare comparefn a c))
      \<and> (isPositive (sortCompare comparefn a b) \<and> isPositive (sortCompare comparefn b c) \<longrightarrow>
           isPositive (sortCompare comparefn a c)))"

text \<open>\<open>x\<close> may stand before \<open>y\<close> in a sorted result: it does not compare above \<open>y\<close>.\<close>

definition notAbove :: "('a \<Rightarrow> 'a \<Rightarrow> jsnum) \<Rightarrow> 'a \<Rightarrow> 'a \<Rightarrow> bool" where
  "notAbove comparefn x y = (\<not> isPositive (sortCompare comparefn x y))"

text \<open>Two elements that compare equal and stand in this order in \<open>xs\<close> do so in \<open>ys\<close>.\<close>

definition keepsTies :: "('a \<Rightarrow> 'a \<Rightarrow> jsnum) \<Rightarrow> 'a list \<Rightarrow> 'a list \<Rightarrow> bool" where
  "keepsTies comparefn xs ys \<longleftrightarrow>
     (\<forall>a b. sortCompare comparefn a b = Finite 0 \<and> subseq [a, b] xs \<longrightarrow> subseq [a, b] ys)"

text \<open>What ECMAScript requires of a sort function of the host.\<close>

definition conformingSort :: "(('a \<Rightarrow> 'a \<Rightarrow> jsnum) \<Rightarrow> 'a list \<Rightarrow> 'a list) \<Rightarrow> bool" where
  "conformingSort hostSort \<longleftrightarrow>
     (\<forall>comparefn xs. consistentComparator comparefn (set xs) \<longrightarrow>
          mset (hostSort comparefn xs) = mset xs
        \<and> sorted_wrt (notAbove comparefn) (hostSort comparefn xs)
        \<and> keepsTies comparefn xs (hostSort comparefn xs))"

text \<open>
  The sort of V8, the host of the viewer's page, on an array of fewer than 64 elements
  (\<open>ArrayTimSortImpl\<close>; a longer array is cut into runs of this kind, which are merged):
  \<open>CountAndMakeRun\<close> finds the run the array starts with, non-descending or strictly
  descending, and reverses a descending one; \<open>BinaryInsertionSort\<close> then inserts every
  later element into the sorted front, at the place a binary search gives.
\<close>

fun runContinues :: "('a \<Rightarrow> 'a \<Rightarrow> jsnum) \<Rightarrow> bool \<Rightarrow> 'a \<Rightarrow> 'a list \<Rightarrow> nat" where
  "runContinues comparefn isDescending previousElement [] = 0"
| "runContinues comparefn isDescending previousElement (currentElement # rest) =
     (let order = sortCompare comparefn currentElement previousElement
      in if isDescending
         then (if \<not> isNegative order then 0
               else Suc (runContinues comparefn isDescending currentElement rest))
         else (if isNegative order then 0
               else Suc (runContinues comparefn isDescending currentElement rest)))"

definition countAndMakeRun :: "('a \<Rightarrow> 'a \<Rightarrow> jsnum) \<Rightarrow> 'a list \<Rightarrow> 'a list \<times> nat" where
  "countAndMakeRun comparefn workArray =
     (case workArray of
        elementHigh # elementLow # rest \<Rightarrow>
          (let isDescending = isNegative (sortCompare comparefn elementLow elementHigh);
               runLength = 2 + runContinues comparefn isDescending elementLow rest
           in if isDescending
              then (rev (take runLength workArray) @ drop runLength workArray, runLength)
              else (workArray, runLength))
      | _ \<Rightarrow> (workArray, 1))"

function binarySearch :: "('a \<Rightarrow> 'a \<Rightarrow> jsnum) \<Rightarrow> 'a \<Rightarrow> 'a list \<Rightarrow> nat \<Rightarrow> nat \<Rightarrow> nat" where
  "binarySearch comparefn pivot workArray left right =
     (if left < right
      then (let mid = left + (right - left) div 2
            in if isNegative (sortCompare comparefn pivot (workArray ! mid))
               then binarySearch comparefn pivot workArray left mid
               else binarySearch comparefn pivot workArray (mid + 1) right)
      else left)"
  by pat_completeness auto
termination
  by (relation "measure (\<lambda>(comparefn, pivot, workArray, left, right). right - left)") auto

text \<open>The element at \<open>start\<close> is moved down to the place found, the elements between move up.\<close>

definition insertPivot :: "('a \<Rightarrow> 'a \<Rightarrow> jsnum) \<Rightarrow> 'a list \<Rightarrow> nat \<Rightarrow> 'a list" where
  "insertPivot comparefn workArray start =
     (let pivot = workArray ! start;
          left = binarySearch comparefn pivot workArray 0 start
      in take left workArray @ pivot # drop left (take start workArray)
           @ drop (Suc start) workArray)"

function binaryInsertionSort ::
  "('a \<Rightarrow> 'a \<Rightarrow> jsnum) \<Rightarrow> 'a list \<Rightarrow> nat \<Rightarrow> nat \<Rightarrow> 'a list" where
  "binaryInsertionSort comparefn workArray start high =
     (if start < high
      then binaryInsertionSort comparefn (insertPivot comparefn workArray start) (Suc start) high
      else workArray)"
  by pat_completeness auto
termination
  by (relation "measure (\<lambda>(comparefn, workArray, start, high). high - start)") auto

definition arrayTimSortShort :: "('a \<Rightarrow> 'a \<Rightarrow> jsnum) \<Rightarrow> 'a list \<Rightarrow> 'a list" where
  "arrayTimSortShort comparefn xs =
     (if length xs < 2 then xs
      else
        (let (workArray, runLength) = countAndMakeRun comparefn xs
         in if runLength < length xs
            then binaryInsertionSort comparefn workArray runLength (length xs)
            else workArray))"

type_synonym hostSort =
  "(displayRow \<Rightarrow> displayRow \<Rightarrow> jsnum) \<Rightarrow> displayRow list \<Rightarrow> displayRow list"

definition sortRows ::
  "localeCompare \<Rightarrow> hostSort \<Rightarrow> sortKey list \<Rightarrow> displayRow list \<Rightarrow> displayRow list" where
  "sortRows lc hostSort stack filtered =
     (if length stack > 0 then hostSort (comparator lc stack) filtered else filtered)"

subsection \<open>The sort stack and the click on a column header\<close>

text \<open>\<^verbatim>\<open>findIndex\<close>: the first position that satisfies the test, \<open>None\<close> for \<^verbatim>\<open>-1\<close>.\<close>

fun findIndex :: "('a \<Rightarrow> bool) \<Rightarrow> 'a list \<Rightarrow> nat option" where
  "findIndex P [] = None"
| "findIndex P (x # xs) = (if P x then Some 0 else map_option Suc (findIndex P xs))"

text \<open>
  The update of \<^verbatim>\<open>sortStack\<close> in the click handler of a header cell of column \<open>c\<close>:
  \<^verbatim>\<open>shift\<close> is \<open>tl\<close>, \<^verbatim>\<open>splice(existingIndex, 1)\<close> takes the entry out, \<^verbatim>\<open>unshift\<close>
  puts an entry in front, \<^verbatim>\<open>pop\<close> is \<open>butlast\<close>.
\<close>

definition headerClick :: "nat \<Rightarrow> sortKey list \<Rightarrow> sortKey list" where
  "headerClick c stack =
     (let stack' =
        (case findIndex (\<lambda>s. col s = c) stack of
           Some 0 \<Rightarrow>
             if dir (hd stack) = Asc then (hd stack)\<lparr>dir := Desc\<rparr> # tl stack
             else tl stack
         | Some (Suc i) \<Rightarrow>
             (stack ! Suc i)\<lparr>dir := Asc\<rparr> # (take (Suc i) stack @ drop (Suc (Suc i)) stack)
         | None \<Rightarrow> \<lparr>col = c, dir = Asc\<rparr> # stack)
      in if length stack' > 3 then butlast stack' else stack')"

text \<open>The two operations on the sort stack: a header click and the Clear Sort button.\<close>

datatype sortEvent = HeaderClick nat | ClearSort

fun sortStep :: "sortKey list \<Rightarrow> sortEvent \<Rightarrow> sortKey list" where
  "sortStep stack (HeaderClick c) = headerClick c stack"
| "sortStep stack ClearSort = []"

definition runSortEvents :: "sortEvent list \<Rightarrow> sortKey list" where
  "runSortEvents evs = foldl sortStep [] evs"

subsection \<open>The viewer's state, \<^verbatim>\<open>applyFiltersAndSort\<close> and the render window\<close>

text \<open>
  The variables of the page's script, the texts of the filter boxes, the rows that are in
  the table body, and whether the scroll handler has been installed. The status line is
  left out.
\<close>

record viewer =
  originalRows :: "row list"
  filterInputs :: "string list"
  sortStack :: "sortKey list"
  displayRows :: "displayRow list"
  visibleStartIndex :: nat
  visibleEndIndex :: nat
  tableBody :: "displayRow list"
  scrollHandler :: bool

definition ROWS_PER_BATCH :: nat where
  "ROWS_PER_BATCH = 100"

text \<open>
  \<^verbatim>\<open>renderTableBody\<close>: the body becomes the rows from \<^verbatim>\<open>visibleStartIndex\<close> up to
  \<^verbatim>\<open>endIndex\<close>, and with more display rows than one batch the scroll handler is installed.
\<close>

definition renderTableBody :: "viewer \<Rightarrow> viewer" where
  "renderTableBody v =
     (let totalRows = length (displayRows v);
          endIndex = min (visibleEndIndex v) totalRows;
          v1 = v\<lparr>tableBody :=
                 take (endIndex - visibleStartIndex v) (drop (visibleStartIndex v) (displayRows v))\<rparr>
      in if length (displayRows v1) > ROWS_PER_BATCH then v1\<lparr>scrollHandler := True\<rparr> else v1)"

definition applyFiltersAndSort :: "localeCompare \<Rightarrow> hostSort \<Rightarrow> viewer \<Rightarrow> viewer" where
  "applyFiltersAndSort lc hostSort v =
     (let v1 = v\<lparr>visibleStartIndex := 0, visibleEndIndex := ROWS_PER_BATCH\<rparr>;
          filters = getFilters 0 (filterInputs v1);
          filtered = filterRows filters (originalRows v1);
          sorted = sortRows lc hostSort (sortStack v1) filtered
      in renderTableBody (v1\<lparr>displayRows := sorted\<rparr>))"

text \<open>\<^verbatim>\<open>renderMoreRows\<close>: the rows from the end of the body up to \<^verbatim>\<open>newEnd\<close> are appended.\<close>

definition renderMoreRows :: "viewer \<Rightarrow> viewer" where
  "renderMoreRows v =
     (let currentEnd = length (tableBody v) + visibleStartIndex v;
          newEnd = min (visibleEndIndex v) (length (displayRows v))
      in v\<lparr>tableBody := tableBody v @ take (newEnd - currentEnd) (drop currentEnd (displayRows v))\<rparr>)"

text \<open>The extension of the window inside the scroll handler of \<^verbatim>\<open>setupInfiniteScroll\<close>.\<close>

definition extendWindow :: "viewer \<Rightarrow> viewer" where
  "extendWindow v =
     (if visibleEndIndex v < length (displayRows v)
      then renderMoreRows
             (v\<lparr>visibleEndIndex :=
                  min (visibleEndIndex v + ROWS_PER_BATCH) (length (displayRows v))\<rparr>)
      else v)"

text \<open>
  The callback of the scroll timer, which runs only once the handler is installed: the
  window is extended near the bottom only.
\<close>

definition onScrollTimeout :: "int \<Rightarrow> int \<Rightarrow> int \<Rightarrow> viewer \<Rightarrow> viewer" where
  "onScrollTimeout scrollHeight scrollTop clientHeight v =
     (if \<not> scrollHandler v then v
      else if scrollTop + clientHeight \<ge> scrollHeight - 200 then extendWindow v else v)"

text \<open>
  The handlers that change the filter or the sort state. A timer (the 300 ms of a filter
  box, the 10 ms before a sort of more than 5000 rows) is modelled by its callback, which
  in each case is \<^verbatim>\<open>applyFiltersAndSort\<close>. A click that lands on the resize handle
  inside a header cell is ignored by the header's click handler.
\<close>

definition onFilterInput ::
  "localeCompare \<Rightarrow> hostSort \<Rightarrow> nat \<Rightarrow> string \<Rightarrow> viewer \<Rightarrow> viewer" where
  "onFilterInput lc hostSort c text v =
     applyFiltersAndSort lc hostSort (v\<lparr>filterInputs := (filterInputs v)[c := text]\<rparr>)"

definition onClearFilters :: "localeCompare \<Rightarrow> hostSort \<Rightarrow> viewer \<Rightarrow> viewer" where
  "onClearFilters lc hostSort v =
     applyFiltersAndSort lc hostSort (v\<lparr>filterInputs := map (\<lambda>x. []) (filterInputs v)\<rparr>)"

definition onClearSort :: "localeCompare \<Rightarrow> hostSort \<Rightarrow> viewer \<Rightarrow> viewer" where
  "onClearSort lc hostSort v = applyFiltersAndSort lc hostSort (v\<lparr>sortStack := []\<rparr>)"

definition onHeaderClick ::
  "localeCompare \<Rightarrow> hostSort \<Rightarrow> bool \<Rightarrow> nat \<Rightarrow> viewer \<Rightarrow> viewer" where
  "onHeaderClick lc hostSort onResizeHandle c v =
     (if onResizeHandle then v
      else
        (let v1 = v\<lparr>sortStack := headerClick c (sortStack v)\<rparr>
         in if length (originalRows v1) > 5000 then applyFiltersAndSort lc hostSort v1
            else applyFiltersAndSort lc hostSort v1))"

datatype viewerEvent =
  FilterInput nat string | ClearFilters | ClearSortClick | HeaderCellClick nat

fun onStateChange :: "localeCompare \<Rightarrow> hostSort \<Rightarrow> viewerEvent \<Rightarrow> viewer \<Rightarrow> viewer" where
  "onStateChange lc hostSort (FilterInput c text) v = onFilterInput lc hostSort c text v"
| "onStateChange lc hostSort ClearFilters v = onClearFilters lc hostSort v"
| "onStateChange lc hostSort ClearSortClick v = onClearSort lc hostSort v"
| "onStateChange lc hostSort (HeaderCellClick c) v = onHeaderClick lc hostSort False c v"

subsection \<open>Column resizing\<close>

text \<open>
  The inline style of a cell: the pixel widths the handler writes (\<open>None\<close>: not set).
  The drag state is the four variables of the script; the table is the header cells of
  the filter row and of the header row, one per data column, and for every rendered row
  the cells of its data columns (\<^verbatim>\<open>nth-child(col + 2)\<close> skips the row-number cell).
\<close>

record cellStyle =
  width :: "int option"
  minWidth :: "int option"
  maxWidth :: "int option"

record resizer =
  isResizing :: bool
  currentCol :: "nat option"
  startX :: int
  startWidth :: int
  filterRowTh :: "cellStyle list"
  headerRowTh :: "cellStyle list"
  bodyCells :: "cellStyle list list"

datatype jsError = TypeError

text \<open>\<^verbatim>\<open>mousedown\<close> on the handle of column \<open>c\<close>; \<open>offsetWidth\<close> is the rendered width of its header cell.\<close>

definition mousedown :: "nat \<Rightarrow> int \<Rightarrow> int \<Rightarrow> resizer \<Rightarrow> resizer" where
  "mousedown c pageX offsetWidth rs =
     rs\<lparr>isResizing := True, currentCol := Some c, startX := pageX, startWidth := offsetWidth\<rparr>"

definition setHeaderWidth :: "int \<Rightarrow> cellStyle \<Rightarrow> cellStyle" where
  "setHeaderWidth w st = st\<lparr>width := Some w, minWidth := Some w\<rparr>"

definition setBodyWidth :: "int \<Rightarrow> cellStyle \<Rightarrow> cellStyle" where
  "setBodyWidth w st = st\<lparr>width := Some w, minWidth := Some w, maxWidth := Some w\<rparr>"

text \<open>The body cells selected in one rendered row: the cell of column \<open>c\<close>, if the row has one.\<close>

definition resizeBodyRow :: "nat \<Rightarrow> int \<Rightarrow> cellStyle list \<Rightarrow> cellStyle list" where
  "resizeBodyRow c w cells = (if c < length cells then cells[c := setBodyWidth w (cells ! c)] else cells)"

text \<open>
  \<^verbatim>\<open>mousemove\<close>. A \<^verbatim>\<open>null\<close> column would count as 0 in \<^verbatim>\<open>currentCol + 2\<close>. A header
  cell that does not exist makes \<^verbatim>\<open>querySelector\<close> return \<^verbatim>\<open>null\<close> and the write to its
  style throw; both header rows are built from the same columns.
\<close>

definition mousemove :: "int \<Rightarrow> resizer \<Rightarrow> jsError + resizer" where
  "mousemove pageX rs =
     (if \<not> isResizing rs then Inr rs
      else
        (let diff = pageX - startX rs;
             newWidth = max 60 (startWidth rs + diff);
             c = (case currentCol rs of None \<Rightarrow> 0 | Some k \<Rightarrow> k)
         in if c \<ge> length (filterRowTh rs) \<or> c \<ge> length (headerRowTh rs) then Inl TypeError
            else Inr (rs\<lparr>filterRowTh := (filterRowTh rs)[c := setHeaderWidth newWidth (filterRowTh rs ! c)],
                         headerRowTh := (headerRowTh rs)[c := setHeaderWidth newWidth (headerRowTh rs ! c)],
                         bodyCells := map (resizeBodyRow c newWidth) (bodyCells rs)\<rparr>)))"

definition mouseup :: "resizer \<Rightarrow> resizer" where
  "mouseup rs = (if isResizing rs then rs\<lparr>isResizing := False\<rparr> else rs)"

subsection \<open>The error page\<close>

text \<open>\<^verbatim>\<open>text.replace(/c/g, rep)\<close> for a single character \<open>c\<close>.\<close>

definition replaceAll :: "char \<Rightarrow> string \<Rightarrow> string \<Rightarrow> string" where
  "replaceAll c rep s = concat (map (\<lambda>x. if x = c then rep else [x]) s)"

definition escapeHtml :: "string \<Rightarrow> string" where
  "escapeHtml s =
     replaceAll (CHR 0x27) ''&#039;''
       (replaceAll (CHR 0x22) ''&quot;''
          (replaceAll (CHR ''>'') ''&gt;''
             (replaceAll (CHR ''<'') ''&lt;''
                (replaceAll (CHR ''&'') ''&amp;'' s))))"

definition entities :: "string list" where
  "entities = [''&amp;'', ''&lt;'', ''&gt;'', ''&quot;'', ''&#039;'']"

text \<open>
  The page of \<^verbatim>\<open>_getErrorHtml\<close>: the lines of the template before the heading, each ended
  by a line feed, then the heading with the variable name, the error box with the escaped
  error text, and the rest. The cross mark of the heading is written as its UTF-8 bytes.
\<close>

definition errorHtmlHead :: "string list" where
  \<open>errorHtmlHead =
     [''<!DOCTYPE html>'',
      ''<html><head><style>'',
      ''body { '',
      ''    font-family: var(--vscode-font-family); '',
      ''    padding: 40px; '',
      ''    color: var(--vscode-foreground); '',
      ''    background: var(--vscode-editor-background); '',
      ''}'',
      ''.error { '',
      ''    background: var(--vscode-inputValidation-errorBackground); '',
      ''    border: 1px solid var(--vscode-inputValidation-errorBorder); '',
      ''    color: var(--vscode-inputValidation-errorForeground, var(--vscode-foreground));'',
      ''    padding: 15px; '',
      ''    border-radius: 4px; '',
      ''}'',
      ''button { '',
      ''    background: var(--vscode-button-background); '',
      ''    color: var(--vscode-button-foreground); '',
      ''    border: none; '',
      ''    padding: 8px 16px; '',
      ''    cursor: pointer; '',
      ''    border-radius: 2px; '',
      ''    margin-top: 15px; '',
      ''}'',
      ''button:hover { background: var(--vscode-button-hoverBackground); }'',
      ''</style></head><body>'']\<close>

definition lineFeed :: string where
  "lineFeed = [CHR 0x0A]"

definition crossMark :: string where
  "crossMark = [CHR 0xE2, CHR 0x9D, CHR 0x8C]"

definition errorHtmlPrefix :: string where
  "errorHtmlPrefix = concat (map (\<lambda>l. l @ lineFeed) errorHtmlHead) @ ''<h2>'' @ crossMark @ '' Error loading ''"

definition errorHtmlMiddle :: string where
  \<open>errorHtmlMiddle = ''</h2>'' @ lineFeed @ ''<div class="error">''\<close>

definition errorHtmlSuffix :: string where
  \<open>errorHtmlSuffix = ''</div>'' @ lineFeed @ ''<button onclick="location.reload()">Try Again</button>''
     @ lineFeed @ ''</body></html>''\<close>

definition getErrorHtml :: "string \<Rightarrow> string \<Rightarrow> string" where
  "getErrorHtml variableName error =
     errorHtmlPrefix @ variableName @ errorHtmlMiddle @ escapeHtml error @ errorHtmlSuffix"

text \<open>
  What polling the export file gave \<^verbatim>\<open>_loadData\<close>: nothing (time-out), the failure
  shape \<^verbatim>\<open>{error}\<close>, or the success shape \<^verbatim>\<open>{columns, rows, nrow, ncol}\<close>.
\<close>

datatype payload = NoData | Failure string | Success "string list" "row list" nat nat

text \<open>
  The content of the webview. The error page is its text; the other pages are named by
  their generator and its arguments, their templates are not reproduced.
\<close>

datatype webviewHtml =
    LoadingHtml string
  | ErrorHtml string
  | ManualHtml string
  | DataHtml string "string list" "row list" nat nat

text \<open>The data rows a page shows.\<close>

fun shownRows :: "webviewHtml \<Rightarrow> row list" where
  "shownRows (DataHtml name columns rows nrow ncol) = rows"
| "shownRows page = []"

record panel =
  variableName :: string
  title :: string
  html :: webviewHtml
  executions :: nat

text \<open>
  \<^verbatim>\<open>_loadData\<close>. \<open>executed\<close> tells whether one of the two ways of running the export code
  in the session succeeded, \<open>polled\<close> is what the polling loop read; \<open>executions\<close> counts
  the times the export code was run. The tests \<^verbatim>\<open>data && data.error\<close> and
  \<^verbatim>\<open>data && data.columns\<close> are truth tests: an empty error text fails the first.
\<close>

definition loadData :: "string \<Rightarrow> bool \<Rightarrow> payload \<Rightarrow> panel \<Rightarrow> panel" where
  "loadData name executed polled p =
     (let p1 = p\<lparr>variableName := name, title := ''Data: '' @ name, html := LoadingHtml name\<rparr>
      in if \<not> executed then p1\<lparr>html := ManualHtml name\<rparr>
         else
           (let p2 = p1\<lparr>executions := executions p1 + 1\<rparr>
            in case polled of
                 Failure e \<Rightarrow>
                   if e \<noteq> [] then p2\<lparr>html := ErrorHtml (getErrorHtml name e)\<rparr>
                   else p2\<lparr>html := ManualHtml name\<rparr>
               | Success columns rows nrow ncol \<Rightarrow> p2\<lparr>html := DataHtml name columns rows nrow ncol\<rparr>
               | NoData \<Rightarrow> p2\<lparr>html := ManualHtml name\<rparr>))"

text \<open>
  What the five passes of \<^verbatim>\<open>_escapeHtml\<close> make of one character, and the test that every
  ampersand of a text starts one of the entities; both serve the proofs about \<open>escapeHtml\<close>.
\<close>

definition escapeChar :: "char \<Rightarrow> string" where
  "escapeChar x =
     (if x = CHR ''&'' then ''&amp;''
      else if x = CHR ''<'' then ''&lt;''
      else if x = CHR ''>'' then ''&gt;''
      else if x = CHR 0x22 then ''&quot;''
      else if x = CHR 0x27 then ''&#039;''
      else [x])"

fun ampersandsStartEntities :: "string \<Rightarrow> bool" where
  "ampersandsStartEntities [] = True"
| "ampersandsStartEntities (x # xs) =
     ((x = CHR ''&'' \<longrightarrow> list_ex (\<lambda>e. prefix e (x # xs)) entities) \<and> ampersandsStartEntities xs)"

text \<open>The invariant of the sort state: at most 3 entries, no column twice.\<close>

definition stackInv :: "sortKey list \<Rightarrow> bool" where
  "stackInv stack \<longleftrightarrow> length stack \<le> 3 \<and> distinct (map col stack)"

text \<open>
  The values the host's collation (root locale, numeric) has on the cell texts \<^verbatim>\<open>.5\<close>,
  \<^verbatim>\<open>#N/A\<close> and \<^verbatim>\<open>0.1\<close>: punctuation sorts before digits and the full stop before the
  number sign, so \<^verbatim>\<open>.5\<close> is below \<^verbatim>\<open>#N/A\<close> and \<^verbatim>\<open>#N/A\<close> below \<^verbatim>\<open>0.1\<close>. It serves
  the example of a column that mixes numbers and text.
\<close>

definition collationOnSample :: localeCompare where
  "collationOnSample x y locales options =
     (if x = y then 0
      else if x = ''.5'' \<and> y = ''#N/A'' then - 1
      else if x = ''#N/A'' \<and> y = ''.5'' then 1
      else if x = ''#N/A'' \<and> y = ''0.1'' then - 1
      else if x = ''0.1'' \<and> y = ''#N/A'' then 1
      else if x = ''.5'' \<and> y = ''0.1'' then - 1
      else if x = ''0.1'' \<and> y = ''.5'' then 1
      else 0)"

section \<open>Properties\<close>

subsection \<open>Strings\<close>

lemma includes_iff: "str_includes s t \<longleftrightarrow> (\<exists>ps ss. s = ps @ t @ ss)"
proof (induction s)
  case Nil
  then show ?case by auto
next
  case (Cons c s)
  show ?case
  proof
    assume "str_includes (c # s) t"
    then consider "prefix t (c # s)" | "str_includes s t" by auto
    then show "\<exists>ps ss. c # s = ps @ t @ ss"
    proof cases
      case 1
      then obtain ss where "c # s = t @ ss" by (auto simp: prefix_def)
      then have "c # s = [] @ t @ ss" by simp
      then show ?thesis by blast
    next
      case 2
      with Cons.IH obtain ps ss where "s = ps @ t @ ss" by blast
      then have "c # s = (c # ps) @ t @ ss" by simp
      then show ?thesis by blast
    qed
  next
    assume "\<exists>ps ss. c # s = ps @ t @ ss"
    then obtain ps ss where eq: "c # s = ps @ t @ ss" by blast
    show "str_includes (c # s) t"
    proof (cases ps)
      case Nil
      with eq have "prefix t (c # s)" by (simp add: prefix_def)
      then show ?thesis by simp
    next
      case (Cons p ps')
      with eq have "s = ps' @ t @ ss" by simp
      with Cons.IH have "str_includes s t" by blast
      then show ?thesis by simp
    qed
  qed
qed

lemma toLowerChar_idem: "toLowerChar (toLowerChar c) = toLowerChar c"
proof -
  have "of_char (char_of (of_char c + (32::nat))) = (of_char c + 32 :: nat)"
    if "65 \<le> (of_char c :: nat)" "(of_char c :: nat) \<le> 90"
    using that by simp
  then show ?thesis
    by (auto simp: toLowerChar_def Let_def)
qed

lemma toLowerCase_idem: "toLowerCase (toLowerCase s) = toLowerCase s"
  by (simp add: toLowerCase_def toLowerChar_idem)

lemma toLowerCase_dropWhile:
  "toLowerCase s = s \<Longrightarrow> toLowerCase (dropWhile P s) = dropWhile P s"
  by (induction s) (auto simp: toLowerCase_def)

lemma toLowerCase_rev: "toLowerCase (rev s) = rev (toLowerCase s)"
  by (simp add: toLowerCase_def rev_map)

lemma toLowerCase_trim: "toLowerCase s = s \<Longrightarrow> toLowerCase (trim s) = trim s"
  by (simp add: trim_def toLowerCase_rev toLowerCase_dropWhile)

subsection \<open>Filter\<close>

lemma getFilters_lower: "(c, p) \<in> set (getFilters i inputs) \<Longrightarrow> toLowerCase p = p"
  by (induction i inputs rule: getFilters.induct)
     (auto simp: Let_def toLowerCase_trim toLowerCase_idem split: if_splits)

lemma getFilters_keys_ge: "(c, p) \<in> set (getFilters i inputs) \<Longrightarrow> i \<le> c"
  by (induction i inputs rule: getFilters.induct)
     (fastforce simp: Let_def split: if_splits)+

lemma getFilters_distinct: "distinct (map fst (getFilters i inputs))"
proof (induction i inputs rule: getFilters.induct)
  case (1 c)
  then show ?case by simp
next
  case (2 c inp inputs)
  have "c \<notin> fst ` set (getFilters (Suc c) inputs)"
    using getFilters_keys_ge [of c _ "Suc c" inputs] by fastforce
  with 2 show ?case by (auto simp: Let_def)
qed

lemma rowMatches_iff:
  "rowMatches filters cs r \<longleftrightarrow>
     (\<forall>c \<in> set cs. str_includes (toLowerCase (cellValue r c)) (filterAt filters c))"
  by (induction cs) auto

lemma mapWithIndex_enumerate: "mapWithIndex i rs = map toDisplayRow (enumerate i rs)"
  by (induction rs arbitrary: i) (auto simp: toDisplayRow_def)

lemma filterLoop_enumerate:
  "filterLoop filters i rs =
     map toDisplayRow
       (filter (\<lambda>p. rowMatches filters (map fst filters) (snd p)) (enumerate i rs))"
  by (induction rs arbitrary: i) (auto simp: toDisplayRow_def)

lemma filterRows_enumerate:
  "filterRows filters rs =
     map toDisplayRow
       (filter (\<lambda>p. rowMatches filters (map fst filters) (snd p)) (enumerate 0 rs))"
  by (cases filters)
     (simp_all add: filterRows_def mapWithIndex_enumerate filterLoop_enumerate)

text \<open>
  Claim C1. For all rows of the payload and all texts of the filter boxes, with
  \<open>filters\<close> the map the code builds from the boxes, the filter step returns exactly the
  pairs (original index, cells) such that for every column in the domain of the map the
  lowercased cell (the empty text when the row has no such cell) contains the lowercased
  predicate of that column, in the order of the payload; and with an empty map it returns
  every row, in order.
\<close>

theorem filter_correct:
  "filterRows (getFilters 0 inputs) rows =
     map toDisplayRow
       (filter (\<lambda>(i, r). \<forall>c \<in> dom (map_of (getFilters 0 inputs)).
                  str_includes (toLowerCase (cellValue r c))
                    (toLowerCase (the (map_of (getFilters 0 inputs) c))))
          (enumerate 0 rows))
   \<and> (getFilters 0 inputs = [] \<longrightarrow>
        filterRows (getFilters 0 inputs) rows = map toDisplayRow (enumerate 0 rows))"
proof -
  let ?F = "getFilters 0 inputs"
  have low: "toLowerCase (the (map_of ?F c)) = filterAt ?F c" if "c \<in> dom (map_of ?F)" for c
  proof -
    from that obtain p where p: "map_of ?F c = Some p" by auto
    then have "(c, p) \<in> set ?F" by (rule map_of_SomeD)
    then have "toLowerCase p = p" by (rule getFilters_lower)
    with p show ?thesis by (simp add: filterAt_def)
  qed
  have dom: "dom (map_of ?F) = set (map fst ?F)"
    by (simp add: dom_map_of_conv_image_fst)
  have "rowMatches ?F (map fst ?F) r \<longleftrightarrow>
        (\<forall>c \<in> dom (map_of ?F).
           str_includes (toLowerCase (cellValue r c)) (toLowerCase (the (map_of ?F c))))" for r
    unfolding rowMatches_iff dom [symmetric] using low by auto
  then have main: "filterRows ?F rows =
     map toDisplayRow
       (filter (\<lambda>(i, r). \<forall>c \<in> dom (map_of ?F).
                  str_includes (toLowerCase (cellValue r c)) (toLowerCase (the (map_of ?F c))))
          (enumerate 0 rows))"
    by (simp add: filterRows_enumerate case_prod_unfold)
  have "filterRows [] rows = map toDisplayRow (enumerate 0 rows)"
    by (simp add: filterRows_def mapWithIndex_enumerate)
  with main show ?thesis by simp
qed

theorem filter_correct_witness:
  "map toDisplayRow
     (filter (\<lambda>(i, r). \<forall>c \<in> dom (map_of (getFilters 0 ['''', '' 2 ''])).
                str_includes (toLowerCase (cellValue r c))
                  (toLowerCase (the (map_of (getFilters 0 ['''', '' 2 '']) c))))
        (enumerate 0 [[''Alice'', ''25''], [''Bob'', ''9''], [''Carl'', ''30'']]))
     = [\<lparr>data = [''Alice'', ''25''], originalIndex = 0\<rparr>]
   \<and> getFilters 0 ['''', ''  ''] = []
   \<and> filterRows (getFilters 0 ['''', ''  '']) [[''Alice'', ''25''], [''Bob'', ''9'']]
     = map toDisplayRow (enumerate 0 [[''Alice'', ''25''], [''Bob'', ''9'']])"
proof -
  have run: "filterRows (getFilters 0 ['''', '' 2 ''])
               [[''Alice'', ''25''], [''Bob'', ''9''], [''Carl'', ''30'']]
             = [\<lparr>data = [''Alice'', ''25''], originalIndex = 0\<rparr>]"
    by code_simp
  have empty: "getFilters 0 ['''', ''  ''] = []"
    by code_simp
  from run filter_correct [of "['''', '' 2 '']" "[[''Alice'', ''25''], [''Bob'', ''9''], [''Carl'', ''30'']]"]
  have first: "map toDisplayRow
     (filter (\<lambda>(i, r). \<forall>c \<in> dom (map_of (getFilters 0 ['''', '' 2 ''])).
                str_includes (toLowerCase (cellValue r c))
                  (toLowerCase (the (map_of (getFilters 0 ['''', '' 2 '']) c))))
        (enumerate 0 [[''Alice'', ''25''], [''Bob'', ''9''], [''Carl'', ''30'']]))
     = [\<lparr>data = [''Alice'', ''25''], originalIndex = 0\<rparr>]"
    by simp
  from empty filter_correct [of "['''', ''  '']" "[[''Alice'', ''25''], [''Bob'', ''9'']]"]
  have "filterRows (getFilters 0 ['''', ''  '']) [[''Alice'', ''25''], [''Bob'', ''9'']]
     = map toDisplayRow (enumerate 0 [[''Alice'', ''25''], [''Bob'', ''9'']])"
    by blast
  with first empty show ?thesis by blast
qed

lemma replaceAll_append: "replaceAll c rep (a @ b) = replaceAll c rep a @ replaceAll c rep b"
  by (simp add: replaceAll_def)

lemma replaceAll_concat:
  "replaceAll c rep (concat xss) = concat (map (replaceAll c rep) xss)"
  by (induction xss) (simp_all add: replaceAll_append, simp add: replaceAll_def)

lemma replaceAll_as_concat: "replaceAll c rep s = concat (map (\<lambda>x. if x = c then rep else [x]) s)"
  by (simp add: replaceAll_def)

lemma escapeChar_passes:
  "replaceAll (CHR 0x27) ''&#039;''
       (replaceAll (CHR 0x22) ''&quot;''
          (replaceAll (CHR ''>'') ''&gt;''
             (replaceAll (CHR ''<'') ''&lt;''
                (if x = CHR ''&'' then ''&amp;'' else [x])))) = escapeChar x"
  by (simp add: escapeChar_def replaceAll_def)

lemma escapeHtml_concat: "escapeHtml s = concat (map escapeChar s)"
proof -
  have "escapeHtml s =
     concat (map (\<lambda>x. replaceAll (CHR 0x27) ''&#039;''
       (replaceAll (CHR 0x22) ''&quot;''
          (replaceAll (CHR ''>'') ''&gt;''
             (replaceAll (CHR ''<'') ''&lt;''
                (if x = CHR ''&'' then ''&amp;'' else [x]))))) s)"
    unfolding escapeHtml_def
    by (simp add: replaceAll_as_concat [of "CHR ''&''"] replaceAll_concat comp_def)
  then show ?thesis by (simp add: escapeChar_passes)
qed

lemma escapeChar_no_markup:
  "CHR ''<'' \<notin> set (escapeChar x)" "CHR ''>'' \<notin> set (escapeChar x)"
  "CHR 0x22 \<notin> set (escapeChar x)" "CHR 0x27 \<notin> set (escapeChar x)"
  by (auto simp: escapeChar_def)

lemma escapeHtml_no_markup:
  "CHR ''<'' \<notin> set (escapeHtml s)" "CHR ''>'' \<notin> set (escapeHtml s)"
  "CHR 0x22 \<notin> set (escapeHtml s)" "CHR 0x27 \<notin> set (escapeHtml s)"
  by (auto simp: escapeHtml_concat escapeChar_no_markup)

lemma ampersands_escapeChar:
  "ampersandsStartEntities rest \<Longrightarrow> ampersandsStartEntities (escapeChar x @ rest)"
  by (simp add: escapeChar_def entities_def)

lemma ampersands_escapeHtml: "ampersandsStartEntities (escapeHtml s)"
  unfolding escapeHtml_concat
  by (induction s) (simp_all add: ampersands_escapeChar)

lemma ampersandsStartEntities_iff:
  "ampersandsStartEntities s \<longleftrightarrow>
     (\<forall>i < length s. s ! i = CHR ''&'' \<longrightarrow> (\<exists>e \<in> set entities. prefix e (drop i s)))"
proof (induction s)
  case Nil
  then show ?case by simp
next
  case (Cons x xs)
  have "(\<forall>i < length (x # xs). P i) \<longleftrightarrow> P 0 \<and> (\<forall>i < length xs. P (Suc i))" for P
    by (auto simp: less_Suc_eq_0_disj)
  then show ?case using Cons.IH by (simp add: list_ex_iff)
qed

text \<open>
  Claim C10. For every text, the result of \<open>escapeHtml\<close> contains none of the characters
  \<^verbatim>\<open><\<close>, \<^verbatim>\<open>>\<close>, the double quote and the single quote, and at every position of the
  result that holds an ampersand one of the five entities starts.
\<close>

theorem escapeHtml_safe:
  "CHR ''<'' \<notin> set (escapeHtml s) \<and> CHR ''>'' \<notin> set (escapeHtml s)
   \<and> CHR 0x22 \<notin> set (escapeHtml s) \<and> CHR 0x27 \<notin> set (escapeHtml s)
   \<and> (\<forall>i < length (escapeHtml s). escapeHtml s ! i = CHR ''&'' \<longrightarrow>
         (\<exists>e \<in> set entities. prefix e (drop i (escapeHtml s))))"
  using escapeHtml_no_markup [of s] ampersands_escapeHtml [of s]
  by (simp add: ampersandsStartEntities_iff)

theorem escapeHtml_safe_witness:
  "5 < length (escapeHtml ''<a&'') \<and> escapeHtml ''<a&'' ! 5 = CHR ''&''
   \<and> (\<exists>e \<in> set entities. prefix e (drop 5 (escapeHtml ''<a&'')))"
proof -
  have ev: "escapeHtml ''<a&'' = ''&lt;a&amp;''"
    by (simp add: escapeHtml_def replaceAll_def)
  have len: "5 < length (escapeHtml ''<a&'')" and at: "escapeHtml ''<a&'' ! 5 = CHR ''&''"
    by (simp_all add: ev)
  with escapeHtml_safe [of "''<a&''"] show ?thesis by blast
qed

subsection \<open>Sort stack\<close>

lemma findIndex_None: "(\<forall>x \<in> set xs. \<not> P x) \<Longrightarrow> findIndex P xs = None"
  by (induction xs) auto

lemma findIndex_append:
  "(\<forall>x \<in> set pre. \<not> P x) \<Longrightarrow> P y \<Longrightarrow> findIndex P (pre @ y # post) = Some (length pre)"
  by (induction pre) auto

lemma findIndex_SomeD:
  "findIndex P xs = Some k \<Longrightarrow>
     \<exists>pre y post. xs = pre @ y # post \<and> length pre = k \<and> P y \<and> (\<forall>x \<in> set pre. \<not> P x)"
proof (induction xs arbitrary: k)
  case Nil
  then show ?case by simp
next
  case (Cons x xs)
  show ?case
  proof (cases "P x")
    case True
    with Cons.prems have "k = 0" by simp
    with True have "x # xs = [] @ x # xs \<and> length ([] :: 'a list) = k \<and> P x \<and> (\<forall>z \<in> set []. \<not> P z)"
      by simp
    then show ?thesis by blast
  next
    case False
    with Cons.prems obtain k' where k': "findIndex P xs = Some k'" "k = Suc k'" by auto
    from Cons.IH [OF k'(1)] obtain pre y post
      where "xs = pre @ y # post" "length pre = k'" "P y" "\<forall>z \<in> set pre. \<not> P z" by blast
    with False k'(2)
    have "x # xs = (x # pre) @ y # post \<and> length (x # pre) = k \<and> P y \<and> (\<forall>z \<in> set (x # pre). \<not> P z)"
      by simp
    then show ?thesis by blast
  qed
qed

lemma headerClick_absent:
  "\<forall>s \<in> set stack. col s \<noteq> c \<Longrightarrow>
     headerClick c stack =
       (if length stack \<ge> 3 then butlast (\<lparr>col = c, dir = Asc\<rparr> # stack)
        else \<lparr>col = c, dir = Asc\<rparr> # stack)"
  by (simp add: headerClick_def findIndex_None)

lemma headerClick_primary:
  "col s = c \<Longrightarrow>
     headerClick c (s # rest) =
       (if dir s = Asc
        then (if length rest \<ge> 3 then butlast (s\<lparr>dir := Desc\<rparr> # rest) else s\<lparr>dir := Desc\<rparr> # rest)
        else (if length rest > 3 then butlast rest else rest))"
  by (simp add: headerClick_def)

lemma headerClick_later:
  assumes "\<forall>s \<in> set pre. col s \<noteq> c" "col k = c" "pre \<noteq> []"
  shows "headerClick c (pre @ k # post) =
       (if length (pre @ post) \<ge> 3 then butlast (k\<lparr>dir := Asc\<rparr> # pre @ post)
        else k\<lparr>dir := Asc\<rparr> # pre @ post)"
proof -
  from assms(3) obtain i where i: "length pre = Suc i" by (cases pre) auto
  have "findIndex (\<lambda>s. col s = c) (pre @ k # post) = Some (Suc i)"
    using findIndex_append [of pre "\<lambda>s. col s = c" k post] assms i by simp
  moreover have "(pre @ k # post) ! Suc i = k" using i by (metis nth_append_length)
  moreover have "take (Suc i) (pre @ k # post) = pre" using i by simp
  moreover have "drop (Suc (Suc i)) (pre @ k # post) = post" using i by simp
  ultimately show ?thesis
    by (simp add: headerClick_def del: take_Suc_Cons drop_Suc_Cons)
qed


lemma headerClick_cases:
  obtains (absent) "\<forall>s \<in> set stack. col s \<noteq> c"
  | (primary) s rest where "stack = s # rest" "col s = c"
  | (later) pre k post where "stack = pre @ k # post" "\<forall>s \<in> set pre. col s \<noteq> c" "col k = c" "pre \<noteq> []"
proof (cases "findIndex (\<lambda>s. col s = c) stack")
  case None
  have "\<forall>s \<in> set stack. col s \<noteq> c"
  proof (rule ccontr)
    assume "\<not> (\<forall>s \<in> set stack. col s \<noteq> c)"
    then obtain s where "s \<in> set stack" "col s = c" by blast
    then obtain pre post where "stack = pre @ s # post" by (meson split_list)
    then show False using None \<open>col s = c\<close>
      by (induction pre arbitrary: stack) (auto split: if_splits)
  qed
  then show ?thesis by (rule absent)
next
  case (Some i)
  from findIndex_SomeD [OF Some] obtain pre k post
    where d: "stack = pre @ k # post" "length pre = i" "col k = c" "\<forall>x \<in> set pre. col x \<noteq> c"
    by blast
  show ?thesis
  proof (cases pre)
    case Nil
    with d show ?thesis using primary by simp
  next
    case (Cons a list)
    with d show ?thesis using later [of pre k post] by simp
  qed
qed

lemma distinct_butlast_cols: "distinct (map col xs) \<Longrightarrow> distinct (map col (butlast xs))"
  by (simp add: map_butlast distinct_butlast)

lemma headerClick_inv: "stackInv stack \<Longrightarrow> stackInv (headerClick c stack)"
proof (cases stack c rule: headerClick_cases)
  case absent
  assume inv: "stackInv stack"
  have notin: "c \<notin> set (map col stack)" using absent by auto
  then have "c \<notin> set (butlast (map col stack))" by (blast dest: in_set_butlastD)
  with inv notin show ?thesis
    unfolding stackInv_def headerClick_absent [OF absent]
    by (auto simp: map_butlast distinct_butlast)
next
  case (primary s rest)
  assume "stackInv stack"
  with primary show ?thesis
    unfolding stackInv_def by (auto simp: headerClick_primary)
next
  case (later pre k post)
  assume "stackInv stack"
  with later show ?thesis
    unfolding stackInv_def by (auto simp: headerClick_later)
qed


lemma runSortEvents_inv: "stackInv (foldl sortStep stack evs)" if "stackInv stack"
  using that
proof (induction evs arbitrary: stack)
  case Nil
  then show ?case by simp
next
  case (Cons ev evs)
  have "stackInv (sortStep stack ev)"
    using Cons.prems by (cases ev) (simp_all add: headerClick_inv, simp add: stackInv_def)
  then show ?case using Cons.IH by simp
qed

text \<open>
  Claim C5. After any sequence of header clicks and Clear Sort operations, starting from
  the empty sort stack, the stack has at most 3 entries and no column occurs in it twice.
\<close>

theorem sortStack_invariant:
  "length (runSortEvents evs) \<le> 3 \<and> distinct (map col (runSortEvents evs))"
  using runSortEvents_inv [of "[]" evs]
  by (simp add: runSortEvents_def stackInv_def)

theorem sortStack_invariant_witness:
  "runSortEvents [HeaderClick 0, HeaderClick 0, HeaderClick 1, HeaderClick 2, HeaderClick 3]
     = [\<lparr>col = 3, dir = Asc\<rparr>, \<lparr>col = 2, dir = Asc\<rparr>, \<lparr>col = 1, dir = Asc\<rparr>]
   \<and> length (runSortEvents [HeaderClick 0, HeaderClick 0, HeaderClick 1, HeaderClick 2, HeaderClick 3]) \<le> 3
   \<and> distinct (map col
         (runSortEvents [HeaderClick 0, HeaderClick 0, HeaderClick 1, HeaderClick 2, HeaderClick 3]))"
proof -
  have "runSortEvents [HeaderClick 0, HeaderClick 0, HeaderClick 1, HeaderClick 2, HeaderClick 3]
     = [\<lparr>col = 3, dir = Asc\<rparr>, \<lparr>col = 2, dir = Asc\<rparr>, \<lparr>col = 1, dir = Asc\<rparr>]"
    by (simp add: runSortEvents_def headerClick_def)
  then show ?thesis
    using sortStack_invariant
      [of "[HeaderClick 0, HeaderClick 0, HeaderClick 1, HeaderClick 2, HeaderClick 3]"]
    by (simp only: simp_thms)
qed

text \<open>
  Claim C4. For a sort stack of the data model (at most 3 entries, no column twice) and a
  clicked column \<open>c\<close>: if \<open>c\<close> is the first entry and ascending, that entry becomes
  descending and nothing else changes; if \<open>c\<close> is the first entry and descending, the
  entry is removed and \<open>c\<close> is no longer in the stack; if \<open>c\<close> is at a later position, its
  entry is taken out and put in front as ascending, the entries that were before it moving
  back by one; if \<open>c\<close> is absent, an ascending entry is put in front, and the last entry
  is dropped when the stack already held 3 entries.
\<close>

theorem headerClick_transition:
  assumes "length stack \<le> 3" and "distinct (map col stack)"
  shows "(\<forall>rest. stack = \<lparr>col = c, dir = Asc\<rparr> # rest \<longrightarrow>
            headerClick c stack = \<lparr>col = c, dir = Desc\<rparr> # rest)
       \<and> (\<forall>rest. stack = \<lparr>col = c, dir = Desc\<rparr> # rest \<longrightarrow>
            headerClick c stack = rest \<and> c \<notin> col ` set (headerClick c stack))
       \<and> (\<forall>pre d post. stack = pre @ \<lparr>col = c, dir = d\<rparr> # post \<and> pre \<noteq> [] \<longrightarrow>
            headerClick c stack = \<lparr>col = c, dir = Asc\<rparr> # pre @ post)
       \<and> (c \<notin> col ` set stack \<longrightarrow>
            headerClick c stack =
              (if length stack = 3 then \<lparr>col = c, dir = Asc\<rparr> # butlast stack
               else \<lparr>col = c, dir = Asc\<rparr> # stack))"
proof (intro conjI allI impI)
  fix rest
  assume "stack = \<lparr>col = c, dir = Asc\<rparr> # rest"
  with assms(1) show "headerClick c stack = \<lparr>col = c, dir = Desc\<rparr> # rest"
    by (simp add: headerClick_primary)
next
  fix rest
  assume st: "stack = \<lparr>col = c, dir = Desc\<rparr> # rest"
  with assms(1) show eq: "headerClick c stack = rest"
    by (simp add: headerClick_primary)
  from st assms(2) have "c \<notin> col ` set rest" by simp
  with eq show "c \<notin> col ` set (headerClick c stack)" by simp
next
  fix pre d post
  assume st: "stack = pre @ \<lparr>col = c, dir = d\<rparr> # post \<and> pre \<noteq> []"
  with assms(2) have "\<forall>s \<in> set pre. col s \<noteq> c" by auto
  with st assms(1) show "headerClick c stack = \<lparr>col = c, dir = Asc\<rparr> # pre @ post"
    using headerClick_later [of pre c "\<lparr>col = c, dir = d\<rparr>" post] by simp
next
  assume "c \<notin> col ` set stack"
  then have "\<forall>s \<in> set stack. col s \<noteq> c" by auto
  from headerClick_absent [OF this] assms(1)
  show "headerClick c stack =
          (if length stack = 3 then \<lparr>col = c, dir = Asc\<rparr> # butlast stack
           else \<lparr>col = c, dir = Asc\<rparr> # stack)"
    by (cases stack) auto
qed

theorem headerClick_transition_witness:
  "headerClick 0 [\<lparr>col = 0, dir = Asc\<rparr>, \<lparr>col = 1, dir = Asc\<rparr>]
     = [\<lparr>col = 0, dir = Desc\<rparr>, \<lparr>col = 1, dir = Asc\<rparr>]
   \<and> headerClick 0 [\<lparr>col = 0, dir = Desc\<rparr>, \<lparr>col = 1, dir = Asc\<rparr>] = [\<lparr>col = 1, dir = Asc\<rparr>]
   \<and> headerClick 1 [\<lparr>col = 0, dir = Asc\<rparr>, \<lparr>col = 1, dir = Desc\<rparr>, \<lparr>col = 2, dir = Asc\<rparr>]
     = [\<lparr>col = 1, dir = Asc\<rparr>, \<lparr>col = 0, dir = Asc\<rparr>, \<lparr>col = 2, dir = Asc\<rparr>]
   \<and> headerClick 3 [\<lparr>col = 0, dir = Asc\<rparr>, \<lparr>col = 1, dir = Desc\<rparr>, \<lparr>col = 2, dir = Asc\<rparr>]
     = [\<lparr>col = 3, dir = Asc\<rparr>, \<lparr>col = 0, dir = Asc\<rparr>, \<lparr>col = 1, dir = Desc\<rparr>]"
proof -
  have a: "headerClick 0 [\<lparr>col = 0, dir = Asc\<rparr>, \<lparr>col = 1, dir = Asc\<rparr>]
     = [\<lparr>col = 0, dir = Desc\<rparr>, \<lparr>col = 1, dir = Asc\<rparr>]"
    using headerClick_transition [of "[\<lparr>col = 0, dir = Asc\<rparr>, \<lparr>col = 1, dir = Asc\<rparr>]" 0]
    by simp
  have b: "headerClick 0 [\<lparr>col = 0, dir = Desc\<rparr>, \<lparr>col = 1, dir = Asc\<rparr>] = [\<lparr>col = 1, dir = Asc\<rparr>]"
    using headerClick_transition [of "[\<lparr>col = 0, dir = Desc\<rparr>, \<lparr>col = 1, dir = Asc\<rparr>]" 0]
    by simp
  have inv: "length [\<lparr>col = 0, dir = Asc\<rparr>, \<lparr>col = 1, dir = Desc\<rparr>, \<lparr>col = 2, dir = Asc\<rparr>] \<le> 3"
    "distinct (map col [\<lparr>col = 0, dir = Asc\<rparr>, \<lparr>col = 1, dir = Desc\<rparr>, \<lparr>col = 2, dir = Asc\<rparr>])"
    by simp_all
  have c: "headerClick 1 [\<lparr>col = 0, dir = Asc\<rparr>, \<lparr>col = 1, dir = Desc\<rparr>, \<lparr>col = 2, dir = Asc\<rparr>]
     = [\<lparr>col = 1, dir = Asc\<rparr>, \<lparr>col = 0, dir = Asc\<rparr>, \<lparr>col = 2, dir = Asc\<rparr>]"
    using headerClick_transition [OF inv, of 1, THEN conjunct2, THEN conjunct2, THEN conjunct1,
        rule_format, of "[\<lparr>col = 0, dir = Asc\<rparr>]" Desc "[\<lparr>col = 2, dir = Asc\<rparr>]"]
    by simp
  have d: "headerClick 3 [\<lparr>col = 0, dir = Asc\<rparr>, \<lparr>col = 1, dir = Desc\<rparr>, \<lparr>col = 2, dir = Asc\<rparr>]
     = [\<lparr>col = 3, dir = Asc\<rparr>, \<lparr>col = 0, dir = Asc\<rparr>, \<lparr>col = 1, dir = Desc\<rparr>]"
    using headerClick_transition
      [of "[\<lparr>col = 0, dir = Asc\<rparr>, \<lparr>col = 1, dir = Desc\<rparr>, \<lparr>col = 2, dir = Asc\<rparr>]" 3]
    by simp
  from a b c d show ?thesis by simp
qed

subsection \<open>Render window\<close>

lemma applyFiltersAndSort_window:
  "visibleStartIndex (applyFiltersAndSort lc hostSort v) = 0"
  "visibleEndIndex (applyFiltersAndSort lc hostSort v) = 100"
  "tableBody (applyFiltersAndSort lc hostSort v) = take 100 (displayRows (applyFiltersAndSort lc hostSort v))"
  by (simp_all add: applyFiltersAndSort_def renderTableBody_def ROWS_PER_BATCH_def Let_def min_def)

lemma onStateChange_apply: "\<exists>v'. onStateChange lc hostSort ev v = applyFiltersAndSort lc hostSort v'"
  by (cases ev)
     (auto simp: onFilterInput_def onClearFilters_def onClearSort_def onHeaderClick_def Let_def)

text \<open>
  Claim C6. The extension of the window, when the end of the window is below the number
  of display rows, moves \<open>visibleEndIndex\<close> up by the batch of 100, capped at the number of
  display rows; it never assigns a value beyond that number, never lowers the end and leaves
  the start and the display rows alone. The scroll callback does nothing or extends the
  window. Every handler of a change of the filter or sort state ends with the window
  \<open>[0, 100)\<close> and with the body rendered from that window.
\<close>

theorem render_window:
  "(visibleEndIndex v < length (displayRows v) \<longrightarrow>
      visibleEndIndex (extendWindow v) = min (visibleEndIndex v + 100) (length (displayRows v)))
   \<and> (visibleEndIndex v + 100 \<le> length (displayRows v) \<longrightarrow>
      visibleEndIndex (extendWindow v) = visibleEndIndex v + 100)
   \<and> (visibleEndIndex (extendWindow v) \<noteq> visibleEndIndex v \<longrightarrow>
      visibleEndIndex (extendWindow v) \<le> length (displayRows v))
   \<and> (visibleEndIndex v \<le> length (displayRows v) \<longrightarrow>
      visibleEndIndex (extendWindow v) \<le> length (displayRows v))
   \<and> visibleEndIndex v \<le> visibleEndIndex (extendWindow v)
   \<and> visibleStartIndex (extendWindow v) = visibleStartIndex v
   \<and> displayRows (extendWindow v) = displayRows v
   \<and> (onScrollTimeout scrollHeight scrollTop clientHeight v = v
        \<or> onScrollTimeout scrollHeight scrollTop clientHeight v = extendWindow v)
   \<and> visibleStartIndex (onStateChange lc hostSort ev v) = 0
   \<and> visibleEndIndex (onStateChange lc hostSort ev v) = 100
   \<and> tableBody (onStateChange lc hostSort ev v) = take 100 (displayRows (onStateChange lc hostSort ev v))"
proof -
  obtain v' where v': "onStateChange lc hostSort ev v = applyFiltersAndSort lc hostSort v'"
    using onStateChange_apply by blast
  have "visibleStartIndex (onStateChange lc hostSort ev v) = 0"
    "visibleEndIndex (onStateChange lc hostSort ev v) = 100"
    "tableBody (onStateChange lc hostSort ev v) = take 100 (displayRows (onStateChange lc hostSort ev v))"
    unfolding v' by (rule applyFiltersAndSort_window)+
  moreover have "visibleEndIndex (extendWindow v) =
      (if visibleEndIndex v < length (displayRows v)
       then min (visibleEndIndex v + 100) (length (displayRows v)) else visibleEndIndex v)"
    "visibleStartIndex (extendWindow v) = visibleStartIndex v" "displayRows (extendWindow v) = displayRows v"
    by (simp_all add: extendWindow_def renderMoreRows_def ROWS_PER_BATCH_def Let_def)
  moreover have "onScrollTimeout scrollHeight scrollTop clientHeight v = v
        \<or> onScrollTimeout scrollHeight scrollTop clientHeight v = extendWindow v"
    by (simp add: onScrollTimeout_def)
  ultimately show ?thesis by (simp add: min_def)
qed

theorem render_window_witness:
  "visibleEndIndex (extendWindow \<lparr>originalRows = [], filterInputs = [], sortStack = [],
       displayRows = replicate 250 \<lparr>data = [], originalIndex = 0\<rparr>,
       visibleStartIndex = 0, visibleEndIndex = 100, tableBody = [], scrollHandler = True\<rparr>) = 200
   \<and> visibleEndIndex (extendWindow \<lparr>originalRows = [], filterInputs = [], sortStack = [],
       displayRows = replicate 250 \<lparr>data = [], originalIndex = 0\<rparr>,
       visibleStartIndex = 0, visibleEndIndex = 200, tableBody = [], scrollHandler = True\<rparr>) = 250"
proof -
  let ?v = "\<lambda>e. \<lparr>originalRows = [], filterInputs = [], sortStack = [],
       displayRows = replicate 250 \<lparr>data = [], originalIndex = 0\<rparr>,
       visibleStartIndex = 0, visibleEndIndex = e, tableBody = [], scrollHandler = True\<rparr>"
  have "visibleEndIndex (?v 100) + 100 \<le> length (displayRows (?v 100))" by simp
  with render_window [of "?v 100"] have a: "visibleEndIndex (extendWindow (?v 100)) = 200" by simp
  have "visibleEndIndex (?v 200) < length (displayRows (?v 200))" by simp
  with render_window [of "?v 200"] have b: "visibleEndIndex (extendWindow (?v 200)) = 250" by simp
  from a b show ?thesis by simp
qed

subsection \<open>Resize\<close>

lemma resizeBodyRow_length: "length (resizeBodyRow c w cells) = length cells"
  by (simp add: resizeBodyRow_def)

lemma resizeBodyRow_other: "c' \<noteq> c \<Longrightarrow> resizeBodyRow c w cells ! c' = cells ! c'"
  by (simp add: resizeBodyRow_def)

lemma resizeBodyRow_same:
  "c < length cells \<Longrightarrow> resizeBodyRow c w cells ! c = setBodyWidth w (cells ! c)"
  by (simp add: resizeBodyRow_def)

text \<open>
  Claim C7. A mouse move outside a drag changes nothing. During a drag of the handle of
  column \<open>c\<close> it returns a table in which the two header cells of column \<open>c\<close> have width and
  minimal width \<open>max 60 (startWidth + (pageX - startX))\<close>, every rendered body cell of
  column \<open>c\<close> has that width, minimal and maximal width, and the cells of every other column,
  in the header rows and in the body, are as before.
\<close>

theorem mousemove_resize:
  "(\<not> isResizing rs \<longrightarrow> mousemove pageX rs = Inr rs)
   \<and> (isResizing rs \<and> currentCol rs = Some c
        \<and> c < length (filterRowTh rs) \<and> c < length (headerRowTh rs) \<longrightarrow>
      (\<exists>rs'. mousemove pageX rs = Inr rs'
         \<and> width (filterRowTh rs' ! c) = Some (max 60 (startWidth rs + (pageX - startX rs)))
         \<and> minWidth (filterRowTh rs' ! c) = Some (max 60 (startWidth rs + (pageX - startX rs)))
         \<and> width (headerRowTh rs' ! c) = Some (max 60 (startWidth rs + (pageX - startX rs)))
         \<and> minWidth (headerRowTh rs' ! c) = Some (max 60 (startWidth rs + (pageX - startX rs)))
         \<and> (\<forall>r < length (bodyCells rs). c < length (bodyCells rs ! r) \<longrightarrow>
               width (bodyCells rs' ! r ! c) = Some (max 60 (startWidth rs + (pageX - startX rs)))
             \<and> minWidth (bodyCells rs' ! r ! c) = Some (max 60 (startWidth rs + (pageX - startX rs)))
             \<and> maxWidth (bodyCells rs' ! r ! c) = Some (max 60 (startWidth rs + (pageX - startX rs))))
         \<and> (\<forall>c'. c' \<noteq> c \<longrightarrow>
               filterRowTh rs' ! c' = filterRowTh rs ! c'
             \<and> headerRowTh rs' ! c' = headerRowTh rs ! c'
             \<and> (\<forall>r < length (bodyCells rs). bodyCells rs' ! r ! c' = bodyCells rs ! r ! c'))
         \<and> length (filterRowTh rs') = length (filterRowTh rs)
         \<and> length (headerRowTh rs') = length (headerRowTh rs)
         \<and> length (bodyCells rs') = length (bodyCells rs)
         \<and> (\<forall>r < length (bodyCells rs). length (bodyCells rs' ! r) = length (bodyCells rs ! r))))"
proof (intro conjI impI)
  assume "\<not> isResizing rs"
  then show "mousemove pageX rs = Inr rs" by (simp add: mousemove_def)
next
  let ?w = "max 60 (startWidth rs + (pageX - startX rs))"
  let ?rs' = "rs\<lparr>filterRowTh := (filterRowTh rs)[c := setHeaderWidth ?w (filterRowTh rs ! c)],
                 headerRowTh := (headerRowTh rs)[c := setHeaderWidth ?w (headerRowTh rs ! c)],
                 bodyCells := map (resizeBodyRow c ?w) (bodyCells rs)\<rparr>"
  assume a: "isResizing rs \<and> currentCol rs = Some c
        \<and> c < length (filterRowTh rs) \<and> c < length (headerRowTh rs)"
  then have run: "mousemove pageX rs = Inr ?rs'"
    by (simp add: mousemove_def Let_def)
  have hdr: "width (filterRowTh ?rs' ! c) = Some ?w" "minWidth (filterRowTh ?rs' ! c) = Some ?w"
    "width (headerRowTh ?rs' ! c) = Some ?w" "minWidth (headerRowTh ?rs' ! c) = Some ?w"
    using a by (simp_all add: setHeaderWidth_def)
  have body: "\<forall>r < length (bodyCells rs). c < length (bodyCells rs ! r) \<longrightarrow>
               width (bodyCells ?rs' ! r ! c) = Some ?w
             \<and> minWidth (bodyCells ?rs' ! r ! c) = Some ?w
             \<and> maxWidth (bodyCells ?rs' ! r ! c) = Some ?w"
    by (simp add: resizeBodyRow_same setBodyWidth_def)
  have other: "\<forall>c'. c' \<noteq> c \<longrightarrow>
               filterRowTh ?rs' ! c' = filterRowTh rs ! c'
             \<and> headerRowTh ?rs' ! c' = headerRowTh rs ! c'
             \<and> (\<forall>r < length (bodyCells rs). bodyCells ?rs' ! r ! c' = bodyCells rs ! r ! c')"
    by (simp add: resizeBodyRow_other)
  have lens: "length (filterRowTh ?rs') = length (filterRowTh rs)"
    "length (headerRowTh ?rs') = length (headerRowTh rs)"
    "length (bodyCells ?rs') = length (bodyCells rs)"
    "\<forall>r < length (bodyCells rs). length (bodyCells ?rs' ! r) = length (bodyCells rs ! r)"
    by (simp_all add: resizeBodyRow_length)
  from run hdr body other lens
  show "\<exists>rs'. mousemove pageX rs = Inr rs'
         \<and> width (filterRowTh rs' ! c) = Some ?w
         \<and> minWidth (filterRowTh rs' ! c) = Some ?w
         \<and> width (headerRowTh rs' ! c) = Some ?w
         \<and> minWidth (headerRowTh rs' ! c) = Some ?w
         \<and> (\<forall>r < length (bodyCells rs). c < length (bodyCells rs ! r) \<longrightarrow>
               width (bodyCells rs' ! r ! c) = Some ?w
             \<and> minWidth (bodyCells rs' ! r ! c) = Some ?w
             \<and> maxWidth (bodyCells rs' ! r ! c) = Some ?w)
         \<and> (\<forall>c'. c' \<noteq> c \<longrightarrow>
               filterRowTh rs' ! c' = filterRowTh rs ! c'
             \<and> headerRowTh rs' ! c' = headerRowTh rs ! c'
             \<and> (\<forall>r < length (bodyCells rs). bodyCells rs' ! r ! c' = bodyCells rs ! r ! c'))
         \<and> length (filterRowTh rs') = length (filterRowTh rs)
         \<and> length (headerRowTh rs') = length (headerRowTh rs)
         \<and> length (bodyCells rs') = length (bodyCells rs)
         \<and> (\<forall>r < length (bodyCells rs). length (bodyCells rs' ! r) = length (bodyCells rs ! r))"
    by blast
qed


theorem mousemove_resize_witness:
  "\<exists>rs'. mousemove 150
       \<lparr>isResizing = True, currentCol = Some 1, startX = 100, startWidth = 80,
        filterRowTh = [\<lparr>width = None, minWidth = Some 80, maxWidth = None\<rparr>,
                       \<lparr>width = None, minWidth = Some 80, maxWidth = None\<rparr>],
        headerRowTh = [\<lparr>width = None, minWidth = Some 80, maxWidth = None\<rparr>,
                       \<lparr>width = None, minWidth = Some 80, maxWidth = None\<rparr>],
        bodyCells = [[\<lparr>width = None, minWidth = None, maxWidth = None\<rparr>,
                      \<lparr>width = None, minWidth = None, maxWidth = None\<rparr>]]\<rparr> = Inr rs'
     \<and> width (headerRowTh rs' ! 1) = Some 130
     \<and> maxWidth (bodyCells rs' ! 0 ! 1) = Some 130
     \<and> headerRowTh rs' ! 0 = \<lparr>width = None, minWidth = Some 80, maxWidth = None\<rparr>
     \<and> bodyCells rs' ! 0 ! 0 = \<lparr>width = None, minWidth = None, maxWidth = None\<rparr>"
proof -
  let ?rs = "\<lparr>isResizing = True, currentCol = Some 1, startX = 100, startWidth = 80,
        filterRowTh = [\<lparr>width = None, minWidth = Some 80, maxWidth = None\<rparr>,
                       \<lparr>width = None, minWidth = Some 80, maxWidth = None\<rparr>],
        headerRowTh = [\<lparr>width = None, minWidth = Some 80, maxWidth = None\<rparr>,
                       \<lparr>width = None, minWidth = Some 80, maxWidth = None\<rparr>],
        bodyCells = [[\<lparr>width = None, minWidth = None, maxWidth = None\<rparr>,
                      \<lparr>width = None, minWidth = None, maxWidth = None\<rparr>]]\<rparr>"
  have hyp: "isResizing ?rs \<and> currentCol ?rs = Some 1
        \<and> 1 < length (filterRowTh ?rs) \<and> 1 < length (headerRowTh ?rs)"
    by simp
  from mousemove_resize [of ?rs 150 1, THEN conjunct2, rule_format, OF hyp]
  obtain rs' where r: "mousemove 150 ?rs = Inr rs'"
    "width (headerRowTh rs' ! 1) = Some (max 60 (startWidth ?rs + (150 - startX ?rs)))"
    "\<forall>r < length (bodyCells ?rs). 1 < length (bodyCells ?rs ! r) \<longrightarrow>
        width (bodyCells rs' ! r ! 1) = Some (max 60 (startWidth ?rs + (150 - startX ?rs)))
      \<and> minWidth (bodyCells rs' ! r ! 1) = Some (max 60 (startWidth ?rs + (150 - startX ?rs)))
      \<and> maxWidth (bodyCells rs' ! r ! 1) = Some (max 60 (startWidth ?rs + (150 - startX ?rs)))"
    "\<forall>c'. c' \<noteq> 1 \<longrightarrow>
        filterRowTh rs' ! c' = filterRowTh ?rs ! c'
      \<and> headerRowTh rs' ! c' = headerRowTh ?rs ! c'
      \<and> (\<forall>r < length (bodyCells ?rs). bodyCells rs' ! r ! c' = bodyCells ?rs ! r ! c')"
    by blast
  from r(2) have a: "width (headerRowTh rs' ! 1) = Some 130" by simp
  from r(3) [rule_format, of 0] have b: "maxWidth (bodyCells rs' ! 0 ! 1) = Some 130" by simp
  from r(4) [rule_format, of 0]
  have c: "headerRowTh rs' ! 0 = \<lparr>width = None, minWidth = Some 80, maxWidth = None\<rparr>"
    and d: "bodyCells rs' ! 0 ! 0 = \<lparr>width = None, minWidth = None, maxWidth = None\<rparr>"
    by simp_all
  from r(1) a b c d show ?thesis by blast
qed

subsection \<open>Comparator\<close>

lemma keyCompare_numeric:
  "parseFloat (cellValue (data a) c) \<noteq> NaN \<Longrightarrow> parseFloat (cellValue (data b) c) \<noteq> NaN \<Longrightarrow>
     keyCompare lc c a b = jsSub (parseFloat (cellValue (data a) c)) (parseFloat (cellValue (data b) c))"
  by (simp add: keyCompare_def Let_def)

lemma keyCompare_text:
  "parseFloat (cellValue (data a) c) = NaN \<or> parseFloat (cellValue (data b) c) = NaN \<Longrightarrow>
     keyCompare lc c a b =
       Finite (of_int (lc (cellValue (data a) c) (cellValue (data b) c) None
                          \<lparr>numeric = True, sensitivity = Base\<rparr>))"
  by (auto simp: keyCompare_def Let_def)

lemma comparator_all_zero:
  "\<forall>s \<in> set stack. keyCompare lc (col s) a b = Finite 0 \<Longrightarrow> comparator lc stack a b = Finite 0"
  by (induction stack) (simp_all add: Let_def)

lemma comparator_first_nonzero:
  "\<forall>s \<in> set pre. keyCompare lc (col s) a b = Finite 0 \<Longrightarrow>
   keyCompare lc (col k) a b \<noteq> Finite 0 \<Longrightarrow>
     comparator lc (pre @ k # post) a b =
       (if dir k = Asc then keyCompare lc (col k) a b else jsNeg (keyCompare lc (col k) a b))"
  by (induction pre) (simp_all add: Let_def)

lemma comparator_tie:
  "\<forall>s \<in> set stack. keyCompare lc (col s) a b = Finite 0 \<or> keyCompare lc (col s) a b = NaN \<Longrightarrow>
     comparator lc stack a b = Finite 0 \<or> comparator lc stack a b = NaN"
  by (induction stack) (auto simp: Let_def)

lemma parseFloat_2: "parseFloat ''2'' = Finite 2"
  by (simp add: parseFloat_def isWhiteSpace_def isDigit_def digitsValue_def digitValue_def
      exponentPart_def pow10_def Let_def)

lemma parseFloat_10: "parseFloat ''10'' = Finite 10"
  by (simp add: parseFloat_def isWhiteSpace_def isDigit_def digitsValue_def digitValue_def
      exponentPart_def pow10_def Let_def)


subsection \<open>What counts as a number\<close>








subsection \<open>The error page\<close>

lemma escapeHtml_plain:
  "\<forall>x \<in> set s. x \<notin> {CHR ''&'', CHR ''<'', CHR ''>'', CHR 0x22, CHR 0x27} \<Longrightarrow> escapeHtml s = s"
  unfolding escapeHtml_concat
  by (induction s) (simp_all add: escapeChar_def)

lemma getErrorHtml_includes: "str_includes (getErrorHtml name e) (escapeHtml e)"
proof -
  have "getErrorHtml name e = (errorHtmlPrefix @ name @ errorHtmlMiddle) @ escapeHtml e @ errorHtmlSuffix"
    by (simp add: getErrorHtml_def)
  then show ?thesis unfolding includes_iff by (intro exI)
qed

lemma loadData_failure:
  "html (loadData name True (Failure e) p) =
     (if e \<noteq> [] then ErrorHtml (getErrorHtml name e) else ManualHtml name)"
  "executions (loadData name True (Failure e) p) = executions p + 1"
  by (simp_all add: loadData_def Let_def)

text \<open>
  Claim C8. When the polling of a load gave the failure shape with error text \<open>e\<close>, the
  page shown has no data rows; for a non-empty \<open>e\<close> it is the error page, whose text holds
  the escaped error text between fixed markup, free of \<^verbatim>\<open><\<close>, \<^verbatim>\<open>>\<close> and quotes, and
  the error text itself when it has no character to escape; an empty \<open>e\<close> fails the truth
  test and the manual page is shown. The load is a total function (no crash), and it ran
  the export code once: handling the failure runs it no further time.
\<close>

theorem error_payload_display:
  "shownRows (html (loadData name True (Failure e) p)) = []
   \<and> (e \<noteq> [] \<longrightarrow> html (loadData name True (Failure e) p) = ErrorHtml (getErrorHtml name e))
   \<and> (e = [] \<longrightarrow> html (loadData name True (Failure e) p) = ManualHtml name)
   \<and> getErrorHtml name e = errorHtmlPrefix @ name @ errorHtmlMiddle @ escapeHtml e @ errorHtmlSuffix
   \<and> str_includes (getErrorHtml name e) (escapeHtml e)
   \<and> CHR ''<'' \<notin> set (escapeHtml e) \<and> CHR ''>'' \<notin> set (escapeHtml e)
   \<and> CHR 0x22 \<notin> set (escapeHtml e) \<and> CHR 0x27 \<notin> set (escapeHtml e)
   \<and> ((\<forall>x \<in> set e. x \<notin> {CHR ''&'', CHR ''<'', CHR ''>'', CHR 0x22, CHR 0x27}) \<longrightarrow>
        str_includes (getErrorHtml name e) e)
   \<and> executions (loadData name True (Failure e) p) = executions p + 1"
proof -
  have rows: "shownRows (html (loadData name True (Failure e) p)) = []"
    by (simp add: loadData_failure)
  have plain: "str_includes (getErrorHtml name e) e"
    if "\<forall>x \<in> set e. x \<notin> {CHR ''&'', CHR ''<'', CHR ''>'', CHR 0x22, CHR 0x27}"
    using getErrorHtml_includes [of name e] escapeHtml_plain [OF that] by simp
  show ?thesis
    using rows plain escapeHtml_no_markup [of e] getErrorHtml_includes [of name e]
    by (simp add: loadData_failure getErrorHtml_def)
qed

theorem error_payload_display_witness:
  "html (loadData ''df'' True (Failure ''object not found'')
           \<lparr>variableName = ''x'', title = ''Data: x'', html = LoadingHtml ''x'', executions = 0\<rparr>)
     = ErrorHtml (getErrorHtml ''df'' ''object not found'')
   \<and> str_includes (getErrorHtml ''df'' ''object not found'') ''object not found''"
proof -
  let ?p = "\<lparr>variableName = ''x'', title = ''Data: x'', html = LoadingHtml ''x'', executions = 0\<rparr>"
  note t = error_payload_display [of "''df''" "''object not found''" ?p]
  have h1: "''object not found'' \<noteq> []" by simp
  have h2: "\<forall>x \<in> set ''object not found''. x \<notin> {CHR ''&'', CHR ''<'', CHR ''>'', CHR 0x22, CHR 0x27}"
    by simp
  from t [THEN conjunct2, THEN conjunct1, rule_format, OF h1]
  have a: "html (loadData ''df'' True (Failure ''object not found'') ?p)
     = ErrorHtml (getErrorHtml ''df'' ''object not found'')" .
  from t [THEN conjunct2, THEN conjunct2, THEN conjunct2, THEN conjunct2, THEN conjunct2,
      THEN conjunct2, THEN conjunct2, THEN conjunct2, THEN conjunct2, THEN conjunct1,
      THEN mp, OF h2]
  have b: "str_includes (getErrorHtml ''df'' ''object not found'') ''object not found''" .
  from a b show ?thesis by (rule conjI)
qed

subsection \<open>Comparison results\<close>

lemma sortCompare_sign:
  "isNegative (sortCompare f x y) \<or> sortCompare f x y = Finite 0 \<or> isPositive (sortCompare f x y)"
  by (cases "f x y") (auto simp: sortCompare_def)

lemma sortCompare_exclusive:
  "isNegative (sortCompare f x y) \<Longrightarrow> sortCompare f x y \<noteq> Finite 0"
  "isNegative (sortCompare f x y) \<Longrightarrow> \<not> isPositive (sortCompare f x y)"
  "isPositive (sortCompare f x y) \<Longrightarrow> sortCompare f x y \<noteq> Finite 0"
  by (cases "f x y"; auto simp: sortCompare_def)+

lemma consistentD:
  assumes "consistentComparator f S" "a \<in> S" "b \<in> S" "c \<in> S"
  shows "sortCompare f a a = Finite 0"
    and "sortCompare f a b = Finite 0 \<Longrightarrow> sortCompare f b a = Finite 0"
    and "sortCompare f a b = Finite 0 \<Longrightarrow> sortCompare f b c = Finite 0 \<Longrightarrow> sortCompare f a c = Finite 0"
    and "isNegative (sortCompare f a b) \<Longrightarrow> isNegative (sortCompare f b c) \<Longrightarrow> isNegative (sortCompare f a c)"
    and "isPositive (sortCompare f a b) \<Longrightarrow> isPositive (sortCompare f b c) \<Longrightarrow> isPositive (sortCompare f a c)"
  using assms unfolding consistentComparator_def by blast+

lemma consistent_neg_pos:
  assumes "consistentComparator f S" "a \<in> S" "b \<in> S"
  shows "isNegative (sortCompare f a b) \<longleftrightarrow> isPositive (sortCompare f b a)"
proof
  assume n: "isNegative (sortCompare f a b)"
  show "isPositive (sortCompare f b a)"
  proof (rule ccontr)
    assume np: "\<not> isPositive (sortCompare f b a)"
    from sortCompare_sign [of f b a] np
    consider "isNegative (sortCompare f b a)" | "sortCompare f b a = Finite 0" by blast
    then show False
    proof cases
      case 1
      with n have "isNegative (sortCompare f a a)" using consistentD(4) [OF assms(1,2,3,2)] by blast
      with consistentD(1) [OF assms(1,2,2,2)] show False by simp
    next
      case 2
      then have "sortCompare f a b = Finite 0" using consistentD(2) [OF assms(1,3,2,2)] by blast
      with n show False by simp
    qed
  qed
next
  assume p: "isPositive (sortCompare f b a)"
  show "isNegative (sortCompare f a b)"
  proof (rule ccontr)
    assume nn: "\<not> isNegative (sortCompare f a b)"
    from sortCompare_sign [of f a b] nn
    consider "isPositive (sortCompare f a b)" | "sortCompare f a b = Finite 0" by blast
    then show False
    proof cases
      case 1
      with p have "isPositive (sortCompare f b b)" using consistentD(5) [OF assms(1,3,2,3)] by blast
      with consistentD(1) [OF assms(1,3,3,3)] show False by simp
    next
      case 2
      then have "sortCompare f b a = Finite 0" using consistentD(2) [OF assms(1,2,3,3)] by blast
      with p show False by simp
    qed
  qed
qed

lemma consistent_le_neg_trans:
  assumes c: "consistentComparator f S" and s: "a \<in> S" "b \<in> S" "c \<in> S"
    and ab: "notAbove f a b" and bc: "isNegative (sortCompare f b c)"
  shows "isNegative (sortCompare f a c)"
proof (cases "isNegative (sortCompare f a b)")
  case True
  with bc show ?thesis using consistentD(4) [OF c s] by blast
next
  case False
  with ab sortCompare_sign [of f a b] have z: "sortCompare f a b = Finite 0"
    by (auto simp: notAbove_def)
  then have zba: "sortCompare f b a = Finite 0" using consistentD(2) [OF c s] by blast
  show ?thesis
  proof (rule ccontr)
    assume "\<not> isNegative (sortCompare f a c)"
    with sortCompare_sign [of f a c]
    consider "sortCompare f a c = Finite 0" | "isPositive (sortCompare f a c)" by blast
    then show False
    proof cases
      case 1
      with zba have "sortCompare f b c = Finite 0"
        using consistentD(3) [OF c s(2) s(1) s(3)] by blast
      with bc show False by simp
    next
      case 2
      then have "isNegative (sortCompare f c a)"
        using consistent_neg_pos [OF c s(3) s(1)] by blast
      with bc have "isNegative (sortCompare f b a)"
        using consistentD(4) [OF c s(2) s(3) s(1)] by blast
      with zba show False by simp
    qed
  qed
qed

lemma consistent_neg_le_trans:
  assumes c: "consistentComparator f S" and s: "a \<in> S" "b \<in> S" "c \<in> S"
    and ab: "isNegative (sortCompare f a b)" and bc: "notAbove f b c"
  shows "isNegative (sortCompare f a c)"
proof (cases "isNegative (sortCompare f b c)")
  case True
  with ab show ?thesis using consistentD(4) [OF c s] by blast
next
  case False
  with bc sortCompare_sign [of f b c] have z: "sortCompare f b c = Finite 0"
    by (auto simp: notAbove_def)
  then have zcb: "sortCompare f c b = Finite 0"
    using consistentD(2) [OF c s(2) s(3) s(1)] by blast
  show ?thesis
  proof (rule ccontr)
    assume "\<not> isNegative (sortCompare f a c)"
    with sortCompare_sign [of f a c]
    consider "sortCompare f a c = Finite 0" | "isPositive (sortCompare f a c)" by blast
    then show False
    proof cases
      case 1
      with zcb have "sortCompare f a b = Finite 0"
        using consistentD(3) [OF c s(1) s(3) s(2)] by blast
      with ab show False by simp
    next
      case 2
      then have "isNegative (sortCompare f c a)"
        using consistent_neg_pos [OF c s(3) s(1)] by blast
      with ab have "isNegative (sortCompare f c b)"
        using consistentD(4) [OF c s(3) s(1) s(2)] by blast
      with zcb show False by simp
    qed
  qed
qed

lemma neg_imp_notAbove: "isNegative (sortCompare f a b) \<Longrightarrow> notAbove f a b"
  by (simp add: notAbove_def sortCompare_exclusive)

lemma zero_imp_notAbove: "sortCompare f a b = Finite 0 \<Longrightarrow> notAbove f a b"
  by (simp add: notAbove_def)

lemma notAbove_cases:
  "notAbove f a b \<Longrightarrow> isNegative (sortCompare f a b) \<or> sortCompare f a b = Finite 0"
  using sortCompare_sign [of f a b] by (auto simp: notAbove_def)

lemma consistent_notAbove_trans:
  assumes c: "consistentComparator f S" and s: "a \<in> S" "b \<in> S" "c \<in> S"
    and ab: "notAbove f a b" and bc: "notAbove f b c"
  shows "notAbove f a c"
proof -
  from notAbove_cases [OF bc] show ?thesis
  proof
    assume "isNegative (sortCompare f b c)"
    with ab have "isNegative (sortCompare f a c)" by (rule consistent_le_neg_trans [OF c s])
    then show ?thesis by (rule neg_imp_notAbove)
  next
    assume zbc: "sortCompare f b c = Finite 0"
    from notAbove_cases [OF ab] show ?thesis
    proof
      assume "isNegative (sortCompare f a b)"
      then have "isNegative (sortCompare f a c)" using bc by (rule consistent_neg_le_trans [OF c s])
      then show ?thesis by (rule neg_imp_notAbove)
    next
      assume "sortCompare f a b = Finite 0"
      with zbc have "sortCompare f a c = Finite 0" using consistentD(3) [OF c s] by blast
      then show ?thesis by (rule zero_imp_notAbove)
    qed
  qed
qed

lemma consistent_not_neg_iff:
  assumes "consistentComparator f S" "p \<in> S" "x \<in> S"
  shows "\<not> isNegative (sortCompare f p x) \<longleftrightarrow> notAbove f x p"
  using consistent_neg_pos [OF assms] by (simp add: notAbove_def)

lemma consistent_subset: "consistentComparator f S \<Longrightarrow> T \<subseteq> S \<Longrightarrow> consistentComparator f T"
  unfolding consistentComparator_def by blast

subsection \<open>Chains and pairs in order\<close>

lemma successively_sorted_wrt_on:
  assumes tr: "\<And>x y z. x \<in> S \<Longrightarrow> y \<in> S \<Longrightarrow> z \<in> S \<Longrightarrow> R x y \<Longrightarrow> R y z \<Longrightarrow> R x z"
    and "set xs \<subseteq> S" and "successively R xs"
  shows "sorted_wrt R xs"
  using assms(2,3)
proof (induction xs)
  case Nil
  then show ?case by simp
next
  case (Cons x xs)
  show ?case
  proof (cases xs)
    case Nil
    then show ?thesis by simp
  next
    case (Cons y ys)
    with Cons.prems have xy: "R x y" and rest: "successively R xs" and sub: "set xs \<subseteq> S"
      and xS: "x \<in> S" and yS: "y \<in> S"
      by simp_all
    from Cons.IH [OF sub rest] have sorted: "sorted_wrt R xs" .
    have "R x z" if "z \<in> set xs" for z
    proof (cases "z = y")
      case True
      with xy show ?thesis by simp
    next
      case False
      with that Cons have "z \<in> set ys" by simp
      with sorted Cons have "R y z" by simp
      moreover from that sub have "z \<in> S" by blast
      ultimately show ?thesis using tr [OF xS yS _ xy] by blast
    qed
    with sorted show ?thesis by simp
  qed
qed

lemma subseq_pair_set: "subseq [a, b] xs \<Longrightarrow> a \<in> set xs \<and> b \<in> set xs"
  using list_emb_set [of "(=)" "[a, b]" xs] by auto

lemma subseq_pair_Cons: "subseq [a, b] (x # xs) \<longleftrightarrow> (a = x \<and> b \<in> set xs) \<or> subseq [a, b] xs"
  by (auto simp: subseq_singleton_left dest: subseq_pair_set)

lemma subseq_pair_append:
  "subseq [a, b] (us @ vs) \<longleftrightarrow>
     subseq [a, b] us \<or> (a \<in> set us \<and> b \<in> set vs) \<or> subseq [a, b] vs"
proof (induction us)
  case Nil
  then show ?case by simp
next
  case (Cons u us)
  have "subseq [a, b] ((u # us) @ vs) \<longleftrightarrow> (a = u \<and> b \<in> set (us @ vs)) \<or> subseq [a, b] (us @ vs)"
    by (simp only: append_Cons subseq_pair_Cons)
  also have "\<dots> \<longleftrightarrow> subseq [a, b] (u # us) \<or> (a \<in> set (u # us) \<and> b \<in> set vs) \<or> subseq [a, b] vs"
    unfolding Cons.IH subseq_pair_Cons by auto
  finally show ?case .
qed

lemma sorted_wrt_subseq_pair: "sorted_wrt R xs \<Longrightarrow> subseq [a, b] xs \<Longrightarrow> R a b"
proof (induction xs)
  case Nil
  then show ?case by simp
next
  case (Cons x xs)
  from Cons.prems(2) have "(a = x \<and> b \<in> set xs) \<or> subseq [a, b] xs"
    by (simp only: subseq_pair_Cons)
  then show ?case using Cons by auto
qed

subsection \<open>The binary insertion\<close>

declare binarySearch.simps [simp del]
declare binaryInsertionSort.simps [simp del]

lemma binarySearch_range:
  "left \<le> right \<Longrightarrow>
     left \<le> binarySearch f p ws left right \<and> binarySearch f p ws left right \<le> right"
proof (induction f p ws left right rule: binarySearch.induct)
  case (1 f p ws left right)
  show ?case
  proof (cases "left < right")
    case False
    with "1.prems" show ?thesis by (subst binarySearch.simps, subst binarySearch.simps) simp
  next
    case True
    define mid where "mid = left + (right - left) div 2"
    from True have m: "left \<le> mid" "mid < right" by (simp_all add: mid_def)
    show ?thesis
    proof (cases "isNegative (sortCompare f p (ws ! mid))")
      case neg: True
      from "1.IH"(1) [OF True mid_def neg] m
      have "left \<le> binarySearch f p ws left mid \<and> binarySearch f p ws left mid \<le> mid" by simp
      with True neg m show ?thesis
        by (simp add: binarySearch.simps [of f p ws left right] mid_def [symmetric])
    next
      case nneg: False
      from "1.IH"(2) [OF True mid_def nneg] m
      have "mid + 1 \<le> binarySearch f p ws (mid + 1) right
          \<and> binarySearch f p ws (mid + 1) right \<le> right" by simp
      with True nneg m show ?thesis
        by (simp add: binarySearch.simps [of f p ws left right] mid_def [symmetric])
    qed
  qed
qed

lemma binarySearch_spec:
  assumes c: "consistentComparator f S" and pS: "p \<in> S"
    and sub: "set (take start ws) \<subseteq> S" and len: "start \<le> length ws"
    and sorted: "sorted_wrt (notAbove f) (take start ws)"
  shows "left \<le> right \<Longrightarrow> right \<le> start \<Longrightarrow>
     (\<forall>i < left. \<not> isNegative (sortCompare f p (ws ! i))) \<Longrightarrow>
     (\<forall>i. right \<le> i \<and> i < start \<longrightarrow> isNegative (sortCompare f p (ws ! i))) \<Longrightarrow>
     (\<forall>i < binarySearch f p ws left right. \<not> isNegative (sortCompare f p (ws ! i)))
     \<and> (\<forall>i. binarySearch f p ws left right \<le> i \<and> i < start \<longrightarrow>
            isNegative (sortCompare f p (ws ! i)))"
proof (induction "right - left" arbitrary: left right rule: less_induct)
  case less
  note prems = less.prems
  have inS: "ws ! i \<in> S" if "i < start" for i
  proof -
    from that len have "ws ! i \<in> set (take start ws)"
      by (metis in_set_conv_nth length_take min.absorb2 nth_take)
    with sub show ?thesis by blast
  qed
  have le: "notAbove f (ws ! i) (ws ! j)" if "i \<le> j" "j < start" for i j
  proof (cases "i = j")
    case True
    with that inS [of j] show ?thesis
      using consistentD(1) [OF c, of "ws ! j" "ws ! j" "ws ! j"] by (simp add: zero_imp_notAbove)
  next
    case False
    with that have "i < j" by simp
    with sorted that len have "notAbove f (take start ws ! i) (take start ws ! j)"
      by (simp add: sorted_wrt_iff_nth_less)
    with that show ?thesis by simp
  qed
  show ?case
  proof (cases "left < right")
    case False
    with prems show ?thesis by (subst binarySearch.simps, subst binarySearch.simps) simp
  next
    case True
    define mid where "mid = left + (right - left) div 2"
    from True have m: "left \<le> mid" "mid < right" by (simp_all add: mid_def)
    with prems(2) have ms: "mid < start" by simp
    show ?thesis
    proof (cases "isNegative (sortCompare f p (ws ! mid))")
      case neg: True
      have up: "\<forall>i. mid \<le> i \<and> i < start \<longrightarrow> isNegative (sortCompare f p (ws ! i))"
      proof (intro allI impI)
        fix i assume i: "mid \<le> i \<and> i < start"
        then have "notAbove f (ws ! mid) (ws ! i)" by (simp add: le)
        with neg show "isNegative (sortCompare f p (ws ! i))"
          using consistent_neg_le_trans [OF c pS inS [OF ms] inS [of i]] i by blast
      qed
      from m prems have b: "left \<le> mid" "mid \<le> start" and d: "mid - left < right - left"
        by simp_all
      from less.hyps [OF d b prems(3) up] True neg
      show ?thesis
        by (simp add: binarySearch.simps [of f p ws left right] mid_def [symmetric])
    next
      case nneg: False
      then have mp: "notAbove f (ws ! mid) p"
        using consistent_not_neg_iff [OF c pS inS [OF ms]] by simp
      have low: "\<forall>i < mid + 1. \<not> isNegative (sortCompare f p (ws ! i))"
      proof (intro allI impI)
        fix i assume i: "i < mid + 1"
        then have im: "i \<le> mid" by simp
        with ms have i_lt: "i < start" by simp
        from im ms have "notAbove f (ws ! i) (ws ! mid)" by (rule le)
        then have "notAbove f (ws ! i) p"
          using mp consistent_notAbove_trans [OF c inS [OF i_lt] inS [OF ms] pS] by blast
        then show "\<not> isNegative (sortCompare f p (ws ! i))"
          using consistent_not_neg_iff [OF c pS inS [OF i_lt]] by simp
      qed
      from m prems have b: "mid + 1 \<le> right" and d: "right - (mid + 1) < right - left"
        by simp_all
      from less.hyps [OF d b prems(2) low prems(4)] True nneg
      show ?thesis
        by (simp add: binarySearch.simps [of f p ws left right] mid_def [symmetric])
    qed
  qed
qed

lemma subseq_pair_insert:
  "subseq [a, b] (pre @ p # post) \<longleftrightarrow>
     subseq [a, b] (pre @ post) \<or> (a \<in> set pre \<and> b = p) \<or> (a = p \<and> b \<in> set post)"
  unfolding subseq_pair_append subseq_pair_Cons by (auto dest: subseq_pair_set)

lemma insertPivot_props:
  assumes c: "consistentComparator f S" and sub: "set ws \<subseteq> S" and st: "start < length ws"
    and sorted: "sorted_wrt (notAbove f) (take start ws)"
  shows "mset (insertPivot f ws start) = mset ws"
    and "sorted_wrt (notAbove f) (take (Suc start) (insertPivot f ws start))"
    and "drop (Suc start) (insertPivot f ws start) = drop (Suc start) ws"
    and "sortCompare f a b = Finite 0 \<Longrightarrow> subseq [a, b] ws \<Longrightarrow> subseq [a, b] (insertPivot f ws start)"
proof -
  define p where "p = ws ! start"
  define pre where "pre = take start ws"
  define post where "post = drop (Suc start) ws"
  define r where "r = binarySearch f p ws 0 start"
  have ws: "ws = pre @ p # post"
    unfolding pre_def p_def post_def using st by (rule id_take_nth_drop)
  have pS: "p \<in> S" using sub st by (auto simp: p_def)
  have preS: "set pre \<subseteq> S" using sub by (auto simp: pre_def dest: in_set_takeD)
  have r: "r \<le> start" using binarySearch_range [of 0 start f p ws] by (simp add: r_def)
  have lenpre: "length pre = start" using st by (simp add: pre_def)
  have sub': "set (take start ws) \<subseteq> S" using preS by (simp add: pre_def)
  have len': "start \<le> length ws" using st by simp
  have v1: "\<forall>i < (0::nat). \<not> isNegative (sortCompare f p (ws ! i))" by simp
  have v2: "\<forall>i. start \<le> i \<and> i < start \<longrightarrow> isNegative (sortCompare f p (ws ! i))"
    by (intro allI impI) (elim conjE, simp)
  have z: "(0::nat) \<le> start" and e: "start \<le> start" by simp_all
  note spec = binarySearch_spec [OF c pS sub' len' sorted z e v1 v2, folded r_def]
  have low: "notAbove f x p" if "x \<in> set (take r pre)" for x
  proof -
    from that have "\<exists>i < length (take r pre). take r pre ! i = x"
      by (simp only: in_set_conv_nth)
    then obtain i where i: "i < length (take r pre)" "take r pre ! i = x" by (elim exE conjE)
    from i(1) r lenpre have ir: "i < r" by simp
    with i(2) r have x: "x = ws ! i" by (simp add: pre_def)
    from that have "x \<in> set pre" by (rule in_set_takeD)
    with preS have xS: "x \<in> S" by (rule subsetD)
    from spec [THEN conjunct1, rule_format, OF ir] x
    have "\<not> isNegative (sortCompare f p x)" by simp
    then show ?thesis by (simp only: consistent_not_neg_iff [OF c pS xS])
  qed
  have high: "isNegative (sortCompare f p x)" if "x \<in> set (drop r pre)" for x
  proof -
    from that have "\<exists>i < length (drop r pre). drop r pre ! i = x"
      by (simp only: in_set_conv_nth)
    then obtain i where i: "i < length (drop r pre)" "drop r pre ! i = x" by (elim exE conjE)
    from i(1) lenpre have b: "r \<le> r + i \<and> r + i < start" by simp
    from i(2) r lenpre have "x = pre ! (r + i)" by (simp add: nth_drop)
    with b have x: "x = ws ! (r + i)" by (simp add: pre_def)
    from spec [THEN conjunct2, rule_format, OF b] x show ?thesis by simp
  qed
  have ip: "insertPivot f ws start = take r pre @ p # drop r pre @ post"
    using r by (simp add: insertPivot_def Let_def p_def [symmetric] r_def [symmetric]
        pre_def post_def min_def)
  have front: "length (take r pre @ p # drop r pre) = Suc start" using r lenpre by simp
  have ip': "insertPivot f ws start = (take r pre @ p # drop r pre) @ post" by (simp add: ip)
  show "mset (insertPivot f ws start) = mset ws"
  proof -
    have "mset pre = mset (take r pre) + mset (drop r pre)"
      by (metis append_take_drop_id mset_append)
    then show ?thesis by (subst ws) (simp add: ip)
  qed
  show "sorted_wrt (notAbove f) (take (Suc start) (insertPivot f ws start))"
  proof -
    have "take (Suc start) (insertPivot f ws start) = take r pre @ p # drop r pre"
      unfolding ip' front [symmetric] by (rule append_eq_conv_conj [THEN iffD1, OF refl, THEN conjunct1, symmetric])
    moreover have "sorted_wrt (notAbove f) (take r pre @ p # drop r pre)"
    proof -
      from sorted have sp: "sorted_wrt (notAbove f) (take r pre @ drop r pre)"
        by (simp add: pre_def [symmetric])
      then have "sorted_wrt (notAbove f) (take r pre)" "sorted_wrt (notAbove f) (drop r pre)"
        "\<forall>x \<in> set (take r pre). \<forall>y \<in> set (drop r pre). notAbove f x y"
        by (simp_all only: sorted_wrt_append) blast+
      then show ?thesis
        using low high by (auto simp: sorted_wrt_append neg_imp_notAbove)
    qed
    ultimately show ?thesis by simp
  qed
  show "drop (Suc start) (insertPivot f ws start) = drop (Suc start) ws"
  proof -
    have "drop (Suc start) (insertPivot f ws start) = post"
      unfolding ip' front [symmetric] by (rule append_eq_conv_conj [THEN iffD1, OF refl, THEN conjunct2, symmetric])
    then show ?thesis by (simp only: post_def)
  qed
  show "subseq [a, b] (insertPivot f ws start)"
    if z: "sortCompare f a b = Finite 0" and ab: "subseq [a, b] ws"
  proof -
    from ab have "subseq [a, b] (pre @ post) \<or> (a \<in> set pre \<and> b = p) \<or> (a = p \<and> b \<in> set post)"
      by (subst (asm) ws) (simp only: subseq_pair_insert)
    then consider "subseq [a, b] (pre @ post)" | "a \<in> set pre" "b = p" | "a = p" "b \<in> set post"
      by blast
    then have "subseq [a, b] (take r pre @ p # drop r pre @ post)"
    proof cases
      case 1
      moreover have "pre @ post = take r pre @ drop r pre @ post"
        by (simp add: append_assoc [symmetric] del: append_assoc)
      ultimately have "subseq [a, b] (take r pre @ drop r pre @ post)" by (simp only:)
      then show ?thesis
        unfolding subseq_pair_append [of a b "take r pre"] subseq_pair_Cons
          set_append set_simps
        by blast
    next
      case 2
      have "a \<notin> set (drop r pre)"
      proof
        assume "a \<in> set (drop r pre)"
        then have "isNegative (sortCompare f p a)" by (rule high)
        moreover from 2 preS have "a \<in> S" by blast
        ultimately have "isPositive (sortCompare f a p)"
          using consistent_neg_pos [OF c pS, of a] by blast
        with z 2 show False by simp
      qed
      with 2(1) have "a \<in> set (take r pre)"
        by (metis Un_iff append_take_drop_id set_append)
      with 2(2) show ?thesis
        unfolding subseq_pair_append [of a b "take r pre"] by simp
    next
      case 3
      then show ?thesis
        unfolding subseq_pair_append [of a b "take r pre"] subseq_pair_Cons by simp
    qed
    then show ?thesis by (simp only: ip)
  qed
qed

lemma binaryInsertionSort_props:
  assumes c: "consistentComparator f S"
  shows "set ws \<subseteq> S \<Longrightarrow> start \<le> length ws \<Longrightarrow> sorted_wrt (notAbove f) (take start ws) \<Longrightarrow>
     mset (binaryInsertionSort f ws start (length ws)) = mset ws
     \<and> sorted_wrt (notAbove f) (binaryInsertionSort f ws start (length ws))
     \<and> keepsTies f ws (binaryInsertionSort f ws start (length ws))"
proof (induction "length ws - start" arbitrary: ws start)
  case 0
  then have "start = length ws" by simp
  with 0 show ?case
    by (subst (1 2 3) binaryInsertionSort.simps) (simp add: keepsTies_def)
next
  case (Suc n)
  then have st: "start < length ws" by simp
  define ws1 where "ws1 = insertPivot f ws start"
  note ip = insertPivot_props [OF c Suc.prems(1) st Suc.prems(3), folded ws1_def]
  from ip(1) have len: "length ws1 = length ws" by (metis size_mset)
  from ip(1) have set: "set ws1 = set ws" by (metis set_mset_mset)
  have "n = length ws1 - Suc start" using Suc.hyps(2) len by simp
  moreover have "set ws1 \<subseteq> S" using set Suc.prems(1) by simp
  moreover have "Suc start \<le> length ws1" using st len by simp
  ultimately have ih: "mset (binaryInsertionSort f ws1 (Suc start) (length ws1)) = mset ws1
     \<and> sorted_wrt (notAbove f) (binaryInsertionSort f ws1 (Suc start) (length ws1))
     \<and> keepsTies f ws1 (binaryInsertionSort f ws1 (Suc start) (length ws1))"
    using Suc.hyps(1) ip(2) by blast
  have step: "binaryInsertionSort f ws start (length ws)
      = binaryInsertionSort f ws1 (Suc start) (length ws1)"
    using st by (subst binaryInsertionSort.simps) (simp add: ws1_def [symmetric] len)
  have "keepsTies f ws (binaryInsertionSort f ws1 (Suc start) (length ws1))"
    using ih ip(4) unfolding keepsTies_def by blast
  with ih ip(1) show ?case by (simp add: step)
qed

subsection \<open>The run at the front\<close>

lemma runContinues_chain:
  "runContinues f desc prev rest \<le> length rest
   \<and> successively (\<lambda>x y. if desc then isNegative (sortCompare f y x)
                          else \<not> isNegative (sortCompare f y x))
        (prev # take (runContinues f desc prev rest) rest)"
  by (induction rest arbitrary: prev) (auto simp: Let_def)

lemma keepsTies_refl: "keepsTies f xs xs"
  by (simp add: keepsTies_def)

lemma keepsTies_trans: "keepsTies f xs ys \<Longrightarrow> keepsTies f ys zs \<Longrightarrow> keepsTies f xs zs"
  unfolding keepsTies_def by blast

lemma countAndMakeRun_props:
  assumes c: "consistentComparator f S" and sub: "set xs \<subseteq> S" and len: "2 \<le> length xs"
    and run: "countAndMakeRun f xs = (ws, n)"
  shows "2 \<le> n" and "n \<le> length xs" and "mset ws = mset xs"
    and "sorted_wrt (notAbove f) (take n ws)" and "keepsTies f xs ws"
proof -
  from len obtain x0 x1 rest where xs: "xs = x0 # x1 # rest"
    by (cases xs; cases "tl xs") auto
  define desc where "desc = isNegative (sortCompare f x1 x0)"
  define k where "k = runContinues f desc x1 rest"
  define R where "R = (\<lambda>x y. if desc then isNegative (sortCompare f y x)
                              else \<not> isNegative (sortCompare f y x))"
  have n: "n = 2 + k" and ws: "ws = (if desc then rev (take n xs) @ drop n xs else xs)"
    using run by (auto simp: countAndMakeRun_def xs Let_def desc_def k_def split: if_splits)
  from runContinues_chain [of f desc x1 rest]
  have k: "k \<le> length rest" and ch: "successively R (x1 # take k rest)"
    by (simp_all add: k_def R_def)
  show n2: "2 \<le> n" by (simp add: n)
  show nl: "n \<le> length xs" using k by (simp add: n xs)
  have tk: "take n xs = x0 # x1 # take k rest" by (simp add: n xs)
  have "R x0 x1" by (simp add: R_def desc_def)
  with ch have chain: "successively R (take n xs)" by (simp add: tk)
  have runS: "set (take n xs) \<subseteq> S" using sub by (auto dest: in_set_takeD)
  show "mset ws = mset xs"
  proof (cases desc)
    case True
    have "mset (rev (take n xs) @ drop n xs) = mset xs"
      by (metis append_take_drop_id mset_append mset_rev)
    then show ?thesis using True by (simp only: ws if_True)
  next
    case False
    then show ?thesis by (simp add: ws)
  qed
  show "sorted_wrt (notAbove f) (take n ws)"
  proof (cases desc)
    case False
    have "successively (notAbove f) (take n xs)"
    proof (rule successively_mono [OF chain])
      fix x y assume "x \<in> set (take n xs)" "y \<in> set (take n xs)" "R x y"
      with runS False show "notAbove f x y"
        using consistent_not_neg_iff [OF c, of y x] by (auto simp: R_def)
    qed
    with runS have "sorted_wrt (notAbove f) (take n xs)"
      using successively_sorted_wrt_on [of S "notAbove f" "take n xs"]
        consistent_notAbove_trans [OF c] by blast
    with False show ?thesis by (simp add: ws)
  next
    case True
    have "sorted_wrt R (take n xs)"
    proof (rule successively_sorted_wrt_on [OF _ runS chain])
      fix x y z assume "x \<in> S" "y \<in> S" "z \<in> S" "R x y" "R y z"
      with True show "R x z" using consistentD(4) [OF c, of z y x] by (simp add: R_def)
    qed
    then have "sorted_wrt (\<lambda>x y. notAbove f y x) (take n xs)"
    proof (rule sorted_wrt_mono_rel [rotated])
      fix x y assume "R x y"
      with True show "notAbove f y x" by (simp add: R_def neg_imp_notAbove)
    qed
    then have "sorted_wrt (notAbove f) (rev (take n xs))" by (simp add: sorted_wrt_rev)
    moreover have "take n ws = rev (take n xs)"
    proof -
      have "length (rev (take n xs)) = n" using nl by simp
      then show ?thesis using True by (metis append_eq_conv_conj ws)
    qed
    ultimately show ?thesis by simp
  qed
  show "keepsTies f xs ws"
  proof (cases desc)
    case False
    then show ?thesis by (simp add: ws keepsTies_refl)
  next
    case True
    have srt: "sorted_wrt R (take n xs)"
    proof (rule successively_sorted_wrt_on [OF _ runS chain])
      fix x y z assume "x \<in> S" "y \<in> S" "z \<in> S" "R x y" "R y z"
      with True show "R x z" using consistentD(4) [OF c, of z y x] by (simp add: R_def)
    qed
    show ?thesis
      unfolding keepsTies_def
    proof (intro allI impI)
      fix a b assume h: "sortCompare f a b = Finite 0 \<and> subseq [a, b] xs"
      then have "subseq [a, b] (take n xs @ drop n xs)" by simp
      then consider "subseq [a, b] (take n xs)" | "a \<in> set (take n xs)" "b \<in> set (drop n xs)"
        | "subseq [a, b] (drop n xs)"
        unfolding subseq_pair_append by blast
      then have "subseq [a, b] (rev (take n xs) @ drop n xs)"
      proof cases
        case 1
        with srt have "R a b" by (rule sorted_wrt_subseq_pair)
        with True have neg: "isNegative (sortCompare f b a)" by (simp add: R_def)
        from 1 runS have "a \<in> S" "b \<in> S" by (auto dest: subseq_pair_set)
        with neg have "isPositive (sortCompare f a b)"
          using consistent_neg_pos [OF c, of b a] by blast
        with h show ?thesis by simp
      next
        case 2
        then show ?thesis unfolding subseq_pair_append by simp
      next
        case 3
        then show ?thesis unfolding subseq_pair_append by simp
      qed
      with True show "subseq [a, b] ws" by (simp add: ws)
    qed
  qed
qed

lemma arrayTimSortShort_conforming: "conformingSort arrayTimSortShort"
  unfolding conformingSort_def
proof (intro allI impI)
  fix f :: "'a \<Rightarrow> 'a \<Rightarrow> jsnum" and xs
  assume c: "consistentComparator f (set xs)"
  show "mset (arrayTimSortShort f xs) = mset xs
      \<and> sorted_wrt (notAbove f) (arrayTimSortShort f xs)
      \<and> keepsTies f xs (arrayTimSortShort f xs)"
  proof (cases "length xs < 2")
    case True
    then have "sorted_wrt (notAbove f) xs" by (cases xs; cases "tl xs") auto
    with True show ?thesis by (simp add: arrayTimSortShort_def keepsTies_refl)
  next
    case False
    obtain ws n where run: "countAndMakeRun f xs = (ws, n)" by (cases "countAndMakeRun f xs")
    from False have len: "2 \<le> length xs" by simp
    note cp = countAndMakeRun_props [OF c subset_refl len run]
    from cp(3) have lw: "length ws = length xs" by (metis size_mset)
    from cp(3) have sw: "set ws = set xs" by (metis set_mset_mset)
    show ?thesis
    proof (cases "n < length xs")
      case True
      have "set ws \<subseteq> set xs" "n \<le> length ws" using sw lw cp(2) by simp_all
      from binaryInsertionSort_props [OF c this cp(4)]
      have "mset (binaryInsertionSort f ws n (length xs)) = mset xs"
        "sorted_wrt (notAbove f) (binaryInsertionSort f ws n (length xs))"
        "keepsTies f ws (binaryInsertionSort f ws n (length xs))"
        by (simp_all add: lw cp(3))
      with cp(5) True False run show ?thesis
        by (auto simp: arrayTimSortShort_def intro: keepsTies_trans)
    next
      case nl: False
      with cp(2) lw have "take n ws = ws" by simp
      with cp(4) have "sorted_wrt (notAbove f) ws" by simp
      with cp(3,5) nl False run show ?thesis by (simp add: arrayTimSortShort_def)
    qed
  qed
qed

subsection \<open>The sort step with a conforming sort\<close>

lemma sortCompare_not_NaN: "f x y \<noteq> NaN \<Longrightarrow> sortCompare f x y = f x y"
  by (cases "f x y") (simp_all add: sortCompare_def)

lemma mset_pair_cases: "mset ys = {#x, y#} \<Longrightarrow> ys = [x, y] \<or> ys = [y, x]"
proof -
  assume m: "mset ys = {#x, y#}"
  then have "length ys = 2" by (metis size_mset size_add_mset size_empty numeral_2_eq_2)
  then obtain u v where ys: "ys = [u, v]"
    by (cases ys; cases "tl ys") auto
  with m show ?thesis by (auto simp: add_eq_conv_ex)
qed

lemma conforming_pair:
  assumes hs: "conformingSort hs"
    and xx: "f x x = Finite 0" and yy: "f y y = Finite 0"
    and xy: "isNegative (f x y)" and yx: "isPositive (f y x)"
  shows "hs f [x, y] = [x, y]" and "hs f [y, x] = [x, y]"
proof -
  from xy yx have nn: "f x y \<noteq> NaN" "f y x \<noteq> NaN" by auto
  have sc: "sortCompare f x x = Finite 0" "sortCompare f y y = Finite 0"
    "sortCompare f x y = f x y" "sortCompare f y x = f y x"
    using xx yy nn by (simp_all add: sortCompare_not_NaN)
  have ne: "x \<noteq> y" using xx xy by auto
  have nz: "f x y \<noteq> Finite 0" "f y x \<noteq> Finite 0" "\<not> isPositive (f x y)" "\<not> isNegative (f y x)"
    using xy yx by (cases "f x y"; cases "f y x"; auto)+
  have cons: "consistentComparator f {x, y}"
    unfolding consistentComparator_def using xy yx nz by (auto simp: sc)
  have bad: "\<not> sorted_wrt (notAbove f) [y, x]"
    using yx by (simp add: notAbove_def sc)
  have res: "hs f zs = [x, y]" if "mset zs = {#x, y#}" "set zs = {x, y}" for zs
  proof -
    from hs cons that(2) have "mset (hs f zs) = mset zs" "sorted_wrt (notAbove f) (hs f zs)"
      unfolding conformingSort_def by auto
    with that(1) bad mset_pair_cases [of "hs f zs" x y] show ?thesis by auto
  qed
  show "hs f [x, y] = [x, y]" by (rule res) auto
  show "hs f [y, x] = [x, y]" by (rule res) auto
qed

text \<open>
  Claim C2. For every pair of display rows, every collation of the host and every sort
  stack: the comparison of a key is the difference of the two parsed numbers when both
  cells parse, and otherwise the host's collation of the two cell texts, called with the
  options \<open>numeric\<close> and base sensitivity; the comparator returns the comparison of the first
  key whose comparison is not exactly zero, negated when that key is descending, whatever
  the later keys are, and zero when every key compares as zero; with any sort function
  that conforms to ECMAScript, rows with the cells \<^verbatim>\<open>2\<close> and \<^verbatim>\<open>10\<close> are put in the
  order 2, 10 by an ascending sort and 10, 2 by a descending one.
\<close>

theorem comparator_spec:
  "(parseFloat (cellValue (data a) c) \<noteq> NaN \<and> parseFloat (cellValue (data b) c) \<noteq> NaN \<longrightarrow>
      keyCompare lc c a b =
        jsSub (parseFloat (cellValue (data a) c)) (parseFloat (cellValue (data b) c)))
   \<and> (parseFloat (cellValue (data a) c) = NaN \<or> parseFloat (cellValue (data b) c) = NaN \<longrightarrow>
      keyCompare lc c a b =
        Finite (of_int (lc (cellValue (data a) c) (cellValue (data b) c) None
                           \<lparr>numeric = True, sensitivity = Base\<rparr>)))
   \<and> (\<forall>pre k post. stack = pre @ k # post
          \<and> (\<forall>s \<in> set pre. keyCompare lc (col s) a b = Finite 0)
          \<and> keyCompare lc (col k) a b \<noteq> Finite 0 \<longrightarrow>
        comparator lc stack a b =
          (if dir k = Asc then keyCompare lc (col k) a b else jsNeg (keyCompare lc (col k) a b)))
   \<and> ((\<forall>s \<in> set stack. keyCompare lc (col s) a b = Finite 0) \<longrightarrow>
        comparator lc stack a b = Finite 0)
   \<and> (conformingSort hs \<and> cellValue (data a) c = ''2'' \<and> cellValue (data b) c = ''10'' \<longrightarrow>
        sortRows lc hs [\<lparr>col = c, dir = Asc\<rparr>] [b, a] = [a, b]
      \<and> sortRows lc hs [\<lparr>col = c, dir = Asc\<rparr>] [a, b] = [a, b]
      \<and> sortRows lc hs [\<lparr>col = c, dir = Desc\<rparr>] [a, b] = [b, a]
      \<and> sortRows lc hs [\<lparr>col = c, dir = Desc\<rparr>] [b, a] = [b, a])"
proof (intro conjI allI impI)
  assume "parseFloat (cellValue (data a) c) \<noteq> NaN \<and> parseFloat (cellValue (data b) c) \<noteq> NaN"
  then show "keyCompare lc c a b =
        jsSub (parseFloat (cellValue (data a) c)) (parseFloat (cellValue (data b) c))"
    by (simp add: keyCompare_numeric)
next
  assume "parseFloat (cellValue (data a) c) = NaN \<or> parseFloat (cellValue (data b) c) = NaN"
  then show "keyCompare lc c a b =
        Finite (of_int (lc (cellValue (data a) c) (cellValue (data b) c) None
                           \<lparr>numeric = True, sensitivity = Base\<rparr>))"
    by (rule keyCompare_text)
next
  fix pre k post
  assume "stack = pre @ k # post
          \<and> (\<forall>s \<in> set pre. keyCompare lc (col s) a b = Finite 0)
          \<and> keyCompare lc (col k) a b \<noteq> Finite 0"
  then show "comparator lc stack a b =
          (if dir k = Asc then keyCompare lc (col k) a b else jsNeg (keyCompare lc (col k) a b))"
    using comparator_first_nonzero [of pre lc a b k post] by blast
next
  assume "\<forall>s \<in> set stack. keyCompare lc (col s) a b = Finite 0"
  then show "comparator lc stack a b = Finite 0" by (rule comparator_all_zero)
next
  assume h: "conformingSort hs \<and> cellValue (data a) c = ''2'' \<and> cellValue (data b) c = ''10''"
  then have hs: "conformingSort hs" by simp
  from h have ab: "keyCompare lc c a b = Finite (- 8)" and ba: "keyCompare lc c b a = Finite 8"
    and aa: "keyCompare lc c a a = Finite 0" and bb: "keyCompare lc c b b = Finite 0"
    by (simp_all add: keyCompare_def Let_def parseFloat_2 parseFloat_10)
  let ?asc = "comparator lc [\<lparr>col = c, dir = Asc\<rparr>]"
  let ?desc = "comparator lc [\<lparr>col = c, dir = Desc\<rparr>]"
  have asc: "?asc a a = Finite 0" "?asc b b = Finite 0" "isNegative (?asc a b)" "isPositive (?asc b a)"
    by (simp_all add: ab ba aa bb)
  have desc: "?desc b b = Finite 0" "?desc a a = Finite 0" "isNegative (?desc b a)" "isPositive (?desc a b)"
    by (simp_all add: ab ba aa bb)
  from conforming_pair [of hs ?asc a b, OF hs asc]
  show "sortRows lc hs [\<lparr>col = c, dir = Asc\<rparr>] [b, a] = [a, b]"
    and "sortRows lc hs [\<lparr>col = c, dir = Asc\<rparr>] [a, b] = [a, b]"
    by (simp_all only: sortRows_def length_Cons list.size zero_less_Suc if_True)
  from conforming_pair [of hs ?desc b a, OF hs desc]
  show "sortRows lc hs [\<lparr>col = c, dir = Desc\<rparr>] [a, b] = [b, a]"
    and "sortRows lc hs [\<lparr>col = c, dir = Desc\<rparr>] [b, a] = [b, a]"
    by (simp_all only: sortRows_def length_Cons list.size zero_less_Suc if_True)
qed

theorem comparator_spec_witness:
  "comparator (\<lambda>x y l opts. 1)
      [\<lparr>col = 0, dir = Asc\<rparr>, \<lparr>col = 1, dir = Desc\<rparr>, \<lparr>col = 2, dir = Asc\<rparr>]
      \<lparr>data = [''7'', ''x'', ''1''], originalIndex = 0\<rparr>
      \<lparr>data = [''7.0'', ''y'', ''5''], originalIndex = 1\<rparr> = Finite (- 1)
   \<and> sortRows (\<lambda>x y l opts. 1) arrayTimSortShort [\<lparr>col = 0, dir = Asc\<rparr>]
        [\<lparr>data = [''10''], originalIndex = 0\<rparr>, \<lparr>data = [''2''], originalIndex = 1\<rparr>]
      = [\<lparr>data = [''2''], originalIndex = 1\<rparr>, \<lparr>data = [''10''], originalIndex = 0\<rparr>]"
proof -
  let ?lc = "(\<lambda>x y l opts. 1) :: localeCompare"
  let ?a = "\<lparr>data = [''7'', ''x'', ''1''], originalIndex = 0\<rparr>"
  let ?b = "\<lparr>data = [''7.0'', ''y'', ''5''], originalIndex = 1\<rparr>"
  let ?stack = "[\<lparr>col = 0, dir = Asc\<rparr>, \<lparr>col = 1, dir = Desc\<rparr>, \<lparr>col = 2, dir = Asc\<rparr>]"
  have k0: "keyCompare ?lc 0 ?a ?b = Finite 0"
    by (simp add: keyCompare_def cellValue_def parseFloat_def isWhiteSpace_def isDigit_def
        digitsValue_def digitValue_def exponentPart_def pow10_def Let_def)
  have k1: "keyCompare ?lc 1 ?a ?b = Finite 1"
    using comparator_spec [of ?a 1 ?b ?lc ?stack arrayTimSortShort, THEN conjunct2, THEN conjunct1]
    by (simp add: cellValue_def parseFloat_def isWhiteSpace_def isDigit_def Let_def)
  have "?stack = [\<lparr>col = 0, dir = Asc\<rparr>] @ \<lparr>col = 1, dir = Desc\<rparr> # [\<lparr>col = 2, dir = Asc\<rparr>]
          \<and> (\<forall>s \<in> set [\<lparr>col = 0, dir = Asc\<rparr>]. keyCompare ?lc (col s) ?a ?b = Finite 0)
          \<and> keyCompare ?lc (col \<lparr>col = 1, dir = Desc\<rparr>) ?a ?b \<noteq> Finite 0"
    using k0 k1 by simp
  from comparator_spec [of ?a 1 ?b ?lc ?stack arrayTimSortShort, THEN conjunct2, THEN conjunct2, THEN conjunct1,
      rule_format, OF this] k1
  have first: "comparator ?lc ?stack ?a ?b = Finite (- 1)" by simp
  have "conformingSort (arrayTimSortShort :: hostSort)
      \<and> cellValue (data \<lparr>data = [''2''], originalIndex = 1\<rparr>) 0 = ''2''
      \<and> cellValue (data \<lparr>data = [''10''], originalIndex = 0\<rparr>) 0 = ''10''"
    by (simp add: cellValue_def arrayTimSortShort_conforming)
  from comparator_spec [of "\<lparr>data = [''2''], originalIndex = 1\<rparr>" 0
      "\<lparr>data = [''10''], originalIndex = 0\<rparr>" ?lc ?stack arrayTimSortShort,
      THEN conjunct2, THEN conjunct2, THEN conjunct2, THEN conjunct2, rule_format, OF this]
  have "sortRows ?lc arrayTimSortShort [\<lparr>col = 0, dir = Asc\<rparr>]
        [\<lparr>data = [''10''], originalIndex = 0\<rparr>, \<lparr>data = [''2''], originalIndex = 1\<rparr>]
      = [\<lparr>data = [''2''], originalIndex = 1\<rparr>, \<lparr>data = [''10''], originalIndex = 0\<rparr>]"
    by blast
  with first show ?thesis by blast
qed

subsection \<open>Columns of numbers give a consistent comparator\<close>

lemma consistent_finiteI:
  assumes fin: "\<And>a b. a \<in> S \<Longrightarrow> b \<in> S \<Longrightarrow> f a b = Finite (g a b)"
    and refl: "\<And>a. a \<in> S \<Longrightarrow> g a a = 0"
    and sym: "\<And>a b. a \<in> S \<Longrightarrow> b \<in> S \<Longrightarrow> g a b = 0 \<Longrightarrow> g b a = 0"
    and zt: "\<And>a b c. a \<in> S \<Longrightarrow> b \<in> S \<Longrightarrow> c \<in> S \<Longrightarrow> g a b = 0 \<Longrightarrow> g b c = 0 \<Longrightarrow> g a c = 0"
    and nt: "\<And>a b c. a \<in> S \<Longrightarrow> b \<in> S \<Longrightarrow> c \<in> S \<Longrightarrow> g a b < 0 \<Longrightarrow> g b c < 0 \<Longrightarrow> g a c < 0"
    and pt: "\<And>a b c. a \<in> S \<Longrightarrow> b \<in> S \<Longrightarrow> c \<in> S \<Longrightarrow> 0 < g a b \<Longrightarrow> 0 < g b c \<Longrightarrow> 0 < g a c"
  shows "consistentComparator f S"
  unfolding consistentComparator_def
proof (intro ballI conjI impI)
  fix a b c assume s: "a \<in> S" "b \<in> S" "c \<in> S"
  have sc: "sortCompare f x y = Finite (g x y)" if "x \<in> S" "y \<in> S" for x y
    using fin [OF that] by (simp add: sortCompare_def)
  show "sortCompare f a a = Finite 0" using s refl by (simp add: sc)
  show "sortCompare f b a = Finite 0" if "sortCompare f a b = Finite 0"
    using that s sym [of a b] by (simp add: sc)
  show "sortCompare f a c = Finite 0"
    if "sortCompare f a b = Finite 0 \<and> sortCompare f b c = Finite 0"
    using that s zt [of a b c] by (simp add: sc)
  show "isNegative (sortCompare f a c)"
    if "isNegative (sortCompare f a b) \<and> isNegative (sortCompare f b c)"
    using that s nt [of a b c] by (simp add: sc)
  show "isPositive (sortCompare f a c)"
    if "isPositive (sortCompare f a b) \<and> isPositive (sortCompare f b c)"
    using that s pt [of a b c] by (simp add: sc)
qed

lemma comparator_numeric_consistent:
  assumes num: "\<forall>r \<in> (S :: displayRow set). \<forall>s \<in> set stack. \<exists>q. parseFloat (cellValue (data r) (col s)) = Finite q"
  shows "consistentComparator (comparator lc stack) S"
proof -
  have "\<exists>g. (\<forall>a \<in> S. \<forall>b \<in> S. comparator lc stack a b = Finite (g a b))
      \<and> (\<forall>a \<in> S. g a a = 0)
      \<and> (\<forall>a \<in> S. \<forall>b \<in> S. g a b = 0 \<longrightarrow> g b a = 0)
      \<and> (\<forall>a \<in> S. \<forall>b \<in> S. \<forall>c \<in> S. g a b = 0 \<and> g b c = 0 \<longrightarrow> g a c = 0)
      \<and> (\<forall>a \<in> S. \<forall>b \<in> S. \<forall>c \<in> S. g a b < 0 \<and> g b c < 0 \<longrightarrow> g a c < 0)
      \<and> (\<forall>a \<in> S. \<forall>b \<in> S. \<forall>c \<in> S. 0 < g a b \<and> 0 < g b c \<longrightarrow> 0 < g a c)"
    using num
  proof (induction stack)
    case Nil
    have "(\<forall>a \<in> S. \<forall>b \<in> S. comparator lc [] a b = Finite ((\<lambda>a b. 0) a b))" by simp
    then show ?case by (intro exI [of _ "\<lambda>a b. 0"]) simp
  next
    case (Cons s stack)
    from Cons.prems have "\<forall>r \<in> S. \<forall>s \<in> set stack. \<exists>q. parseFloat (cellValue (data r) (col s)) = Finite q"
      by simp
    from Cons.IH [OF this] obtain g where g: "\<forall>a \<in> S. \<forall>b \<in> S. comparator lc stack a b = Finite (g a b)"
      "\<forall>a \<in> S. g a a = 0"
      "\<forall>a \<in> S. \<forall>b \<in> S. g a b = 0 \<longrightarrow> g b a = 0"
      "\<forall>a \<in> S. \<forall>b \<in> S. \<forall>c \<in> S. g a b = 0 \<and> g b c = 0 \<longrightarrow> g a c = 0"
      "\<forall>a \<in> S. \<forall>b \<in> S. \<forall>c \<in> S. g a b < 0 \<and> g b c < 0 \<longrightarrow> g a c < 0"
      "\<forall>a \<in> S. \<forall>b \<in> S. \<forall>c \<in> S. 0 < g a b \<and> 0 < g b c \<longrightarrow> 0 < g a c"
      by (elim exE conjE)
    define q where "q r = (case parseFloat (cellValue (data r) (col s)) of Finite x \<Rightarrow> x | _ \<Rightarrow> 0)" for r :: displayRow
    have pq: "parseFloat (cellValue (data r) (col s)) = Finite (q r)" if "r \<in> S" for r
    proof -
      from Cons.prems that have "\<exists>x. parseFloat (cellValue (data r) (col s)) = Finite x" by simp
      then obtain x where "parseFloat (cellValue (data r) (col s)) = Finite x" by (elim exE)
      then show ?thesis by (simp add: q_def)
    qed
    define g' where "g' a b = (if q a = q b then g a b
                               else if dir s = Asc then q a - q b else q b - q a)" for a b
    have cmp: "comparator lc (s # stack) a b = Finite (g' a b)" if "a \<in> S" "b \<in> S" for a b
    proof -
      have "keyCompare lc (col s) a b = Finite (q a - q b)"
        using that by (simp add: keyCompare_def Let_def pq)
      moreover have "comparator lc stack a b = Finite (g a b)" using that g(1) by simp
      ultimately show ?thesis by (simp add: g'_def Let_def)
    qed
    have z: "g' a b = 0 \<longleftrightarrow> q a = q b \<and> g a b = 0" for a b
      by (simp add: g'_def)
    have n: "g' a b < 0 \<longleftrightarrow> (if q a = q b then g a b < 0
                               else if dir s = Asc then q a < q b else q b < q a)" for a b
      by (simp add: g'_def)
    have p: "0 < g' a b \<longleftrightarrow> (if q a = q b then 0 < g a b
                               else if dir s = Asc then q b < q a else q a < q b)" for a b
      by (simp add: g'_def)
    have c1: "\<forall>a \<in> S. \<forall>b \<in> S. comparator lc (s # stack) a b = Finite (g' a b)"
      using cmp by simp
    have c2: "\<forall>a \<in> S. g' a a = 0" using g(2) by (simp add: z)
    have c3: "\<forall>a \<in> S. \<forall>b \<in> S. g' a b = 0 \<longrightarrow> g' b a = 0"
    proof (intro ballI impI)
      fix a b assume s: "a \<in> S" "b \<in> S" and h: "g' a b = 0"
      have t: "g a b = 0 \<Longrightarrow> g b a = 0"
        by (rule g(3) [THEN bspec, THEN bspec, THEN mp, OF s])
      from h [unfolded z] have e: "q a = q b" and w: "g a b = 0" by (rule conjunct1, rule conjunct2)
      show "g' b a = 0" unfolding z by (rule conjI [OF e [symmetric] t [OF w]])
    qed
    have c4: "\<forall>a \<in> S. \<forall>b \<in> S. \<forall>c \<in> S. g' a b = 0 \<and> g' b c = 0 \<longrightarrow> g' a c = 0"
    proof (intro ballI impI)
      fix a b c assume s: "a \<in> S" "b \<in> S" "c \<in> S" and h: "g' a b = 0 \<and> g' b c = 0"
      have t: "g a b = 0 \<Longrightarrow> g b c = 0 \<Longrightarrow> g a c = 0"
        by (rule g(4) [THEN bspec, THEN bspec, THEN bspec, THEN mp, OF s]) (rule conjI)
      from h [unfolded z] have e1: "q a = q b" and w1: "g a b = 0" and e2: "q b = q c" and w2: "g b c = 0"
        by blast+
      show "g' a c = 0" unfolding z by (rule conjI [OF trans [OF e1 e2] t [OF w1 w2]])
    qed
    have c5: "\<forall>a \<in> S. \<forall>b \<in> S. \<forall>c \<in> S. g' a b < 0 \<and> g' b c < 0 \<longrightarrow> g' a c < 0"
    proof (intro ballI impI)
      fix a b c assume s: "a \<in> S" "b \<in> S" "c \<in> S" and h: "g' a b < 0 \<and> g' b c < 0"
      have t: "g a b < 0 \<Longrightarrow> g b c < 0 \<Longrightarrow> g a c < 0"
        by (rule g(5) [THEN bspec, THEN bspec, THEN bspec, THEN mp, OF s]) (rule conjI)
      from h have h1: "if q a = q b then g a b < 0 else if dir s = Asc then q a < q b else q b < q a"
        and h2: "if q b = q c then g b c < 0 else if dir s = Asc then q b < q c else q c < q b"
        unfolding n by (rule conjunct1, rule conjunct2)
      have "if q a = q c then g a c < 0 else if dir s = Asc then q a < q c else q c < q a"
      proof (cases "dir s = Asc")
        case True
        with h1 h2 t show ?thesis by (cases "q a = q b"; cases "q b = q c") auto
      next
        case False
        with h1 h2 t show ?thesis by (cases "q a = q b"; cases "q b = q c") auto
      qed
      then show "g' a c < 0" by (simp only: n)
    qed
    have c6: "\<forall>a \<in> S. \<forall>b \<in> S. \<forall>c \<in> S. 0 < g' a b \<and> 0 < g' b c \<longrightarrow> 0 < g' a c"
    proof (intro ballI impI)
      fix a b c assume s: "a \<in> S" "b \<in> S" "c \<in> S" and h: "0 < g' a b \<and> 0 < g' b c"
      have t: "0 < g a b \<Longrightarrow> 0 < g b c \<Longrightarrow> 0 < g a c"
        by (rule g(6) [THEN bspec, THEN bspec, THEN bspec, THEN mp, OF s]) (rule conjI)
      from h have h1: "if q a = q b then 0 < g a b else if dir s = Asc then q b < q a else q a < q b"
        and h2: "if q b = q c then 0 < g b c else if dir s = Asc then q c < q b else q b < q c"
        unfolding p by (rule conjunct1, rule conjunct2)
      have "if q a = q c then 0 < g a c else if dir s = Asc then q c < q a else q a < q c"
      proof (cases "dir s = Asc")
        case True
        with h1 h2 t show ?thesis by (cases "q a = q b"; cases "q b = q c") auto
      next
        case False
        with h1 h2 t show ?thesis by (cases "q a = q b"; cases "q b = q c") auto
      qed
      then show "0 < g' a c" by (simp only: p)
    qed
    show ?case
      by (rule exI [of _ g']) (intro conjI c1 c2 c3 c4 c5 c6)
  qed
  then obtain g where g: "\<forall>a \<in> S. \<forall>b \<in> S. comparator lc stack a b = Finite (g a b)"
      "\<forall>a \<in> S. g a a = 0"
      "\<forall>a \<in> S. \<forall>b \<in> S. g a b = 0 \<longrightarrow> g b a = 0"
      "\<forall>a \<in> S. \<forall>b \<in> S. \<forall>c \<in> S. g a b = 0 \<and> g b c = 0 \<longrightarrow> g a c = 0"
      "\<forall>a \<in> S. \<forall>b \<in> S. \<forall>c \<in> S. g a b < 0 \<and> g b c < 0 \<longrightarrow> g a c < 0"
      "\<forall>a \<in> S. \<forall>b \<in> S. \<forall>c \<in> S. 0 < g a b \<and> 0 < g b c \<longrightarrow> 0 < g a c"
    by (elim exE conjE)
  show ?thesis
  proof (rule consistent_finiteI [of S "comparator lc stack" g])
    show "comparator lc stack a b = Finite (g a b)" if "a \<in> S" "b \<in> S" for a b
      using g(1) that by simp
    show "g a a = 0" if "a \<in> S" for a using g(2) that by simp
    show "g b a = 0" if "a \<in> S" "b \<in> S" "g a b = 0" for a b using g(3) that by blast
    show "g a c = 0" if "a \<in> S" "b \<in> S" "c \<in> S" "g a b = 0" "g b c = 0" for a b c
      using g(4) that by blast
    show "g a c < 0" if "a \<in> S" "b \<in> S" "c \<in> S" "g a b < 0" "g b c < 0" for a b c
      using g(5) that by blast
    show "0 < g a c" if "a \<in> S" "b \<in> S" "c \<in> S" "0 < g a b" "0 < g b c" for a b c
      using g(6) that by blast
  qed
qed

subsection \<open>The sort keeps ties in order\<close>

lemma subseq_pair_nth: "i < j \<Longrightarrow> j < length xs \<Longrightarrow> subseq [xs ! i, xs ! j] xs"
proof (induction xs arbitrary: i j)
  case Nil
  then show ?case by simp
next
  case (Cons x xs)
  show ?case
  proof (cases i)
    case 0
    with Cons.prems obtain j' where "j = Suc j'" "j' < length xs" by (cases j) auto
    then have "subseq [xs ! j'] xs" by (simp add: subseq_singleton_left)
    with 0 \<open>j = Suc j'\<close> show ?thesis by simp
  next
    case (Suc i')
    with Cons.prems obtain j' where j': "j = Suc j'" "i' < j'" "j' < length xs" by (cases j) auto
    with Cons.IH have "subseq [xs ! i', xs ! j'] xs" by simp
    then have "subseq [xs ! i', xs ! j'] (x # xs)" by (rule list_emb_Cons)
    with Suc j' show ?thesis by (simp only: nth_Cons_Suc)
  qed
qed

lemma subseq_pair_positions:
  "subseq [a, b] ys \<Longrightarrow> \<exists>i j. i < j \<and> j < length ys \<and> ys ! i = a \<and> ys ! j = b"
proof (induction ys)
  case Nil
  then show ?case by simp
next
  case (Cons y ys)
  from Cons.prems consider "subseq [a, b] ys" | "a = y" "subseq [b] ys"
    by (auto simp: subseq_Cons2_iff split: if_splits elim: list_emb.cases)
  then show ?case
  proof cases
    case 1
    with Cons.IH obtain i j where "i < j" "j < length ys" "ys ! i = a" "ys ! j = b" by blast
    then have "Suc i < Suc j \<and> Suc j < length (y # ys) \<and> (y # ys) ! Suc i = a \<and> (y # ys) ! Suc j = b"
      by simp
    then show ?thesis by blast
  next
    case 2
    then have "b \<in> set ys" by (simp add: subseq_singleton_left)
    then obtain j where "j < length ys" "ys ! j = b" by (auto simp: in_set_conv_nth)
    with 2 have "0 < Suc j \<and> Suc j < length (y # ys) \<and> (y # ys) ! 0 = a \<and> (y # ys) ! Suc j = b"
      by simp
    then show ?thesis by blast
  qed
qed

lemma distinct_positions_ordered:
  assumes "distinct ys" "i0 < j0" "j0 < length ys" "i' < length ys" "j' < length ys"
    and "ys ! i' = ys ! i0" "ys ! j' = ys ! j0"
  shows "i' < j'"
proof -
  from assms(2,3) have "i0 < length ys" by simp
  with assms(1,4,6) have "i' = i0" by (simp add: nth_eq_iff_index_eq)
  moreover from assms(1,3,5,7) have "j' = j0" by (simp add: nth_eq_iff_index_eq)
  ultimately show ?thesis using assms(2) by simp
qed

lemma sortRows_conforming:
  assumes hs: "conformingSort hs"
    and cons: "consistentComparator (comparator lc stack) (set filtered)"
  shows "mset (sortRows lc hs stack filtered) = mset filtered"
    and "keepsTies (comparator lc stack) filtered (sortRows lc hs stack filtered)"
proof -
  from hs [unfolded conformingSort_def, THEN spec, THEN spec, THEN mp, OF cons]
  have m: "mset (hs (comparator lc stack) filtered) = mset filtered"
    and k: "keepsTies (comparator lc stack) filtered (hs (comparator lc stack) filtered)"
    by blast+
  show "mset (sortRows lc hs stack filtered) = mset filtered"
    using m by (simp add: sortRows_def)
  show "keepsTies (comparator lc stack) filtered (sortRows lc hs stack filtered)"
    using k by (simp add: sortRows_def keepsTies_refl)
qed

lemma sortRows_keeps_order:
  assumes hs: "conformingSort hs"
    and cons: "consistentComparator (comparator lc stack) (set filtered)"
    and sub: "subseq [a, b] filtered" and tie: "comparator lc stack a b = Finite 0"
  shows "subseq [a, b] (sortRows lc hs stack filtered)"
proof -
  from tie have "sortCompare (comparator lc stack) a b = Finite 0"
    by (simp add: sortCompare_def)
  with sub have "sortCompare (comparator lc stack) a b = Finite 0 \<and> subseq [a, b] filtered"
    by (rule conjI [rotated])
  with sortRows_conforming(2) [OF hs cons, unfolded keepsTies_def, THEN spec, THEN spec, THEN mp]
  show ?thesis .
qed

text \<open>
  The comparator decides number or text for each pair of cells, not for the column. On
  the cells \<^verbatim>\<open>.5\<close>, \<^verbatim>\<open>#N/A\<close>, \<^verbatim>\<open>0.1\<close> it puts \<^verbatim>\<open>.5\<close> below \<^verbatim>\<open>#N/A\<close> and \<^verbatim>\<open>#N/A\<close> below \<^verbatim>\<open>0.1\<close> (as
  text), and \<^verbatim>\<open>.5\<close> above \<^verbatim>\<open>0.1\<close> (as numbers).
\<close>

lemma comparator_cyclic_on_sample:
  "\<not> consistentComparator (comparator collationOnSample [\<lparr>col = 0, dir = Asc\<rparr>])
       (set [\<lparr>data = [''0.1''], originalIndex = 0\<rparr>,
             \<lparr>data = [''#N/A''], originalIndex = 1\<rparr>,
             \<lparr>data = [''.5''], originalIndex = 2\<rparr>,
             \<lparr>data = [''0.1''], originalIndex = 3\<rparr>])"
proof
  let ?f = "comparator collationOnSample [\<lparr>col = 0, dir = Asc\<rparr>]"
  let ?a = "\<lparr>data = [''.5''], originalIndex = 2\<rparr>"
  let ?b = "\<lparr>data = [''#N/A''], originalIndex = 1\<rparr>"
  let ?c = "\<lparr>data = [''0.1''], originalIndex = 0\<rparr>"
  let ?S = "set [?c, ?b, ?a, \<lparr>data = [''0.1''], originalIndex = 3\<rparr>]"
  assume c: "consistentComparator ?f ?S"
  have ab: "isNegative (sortCompare ?f ?a ?b)" by code_simp
  have bc: "isNegative (sortCompare ?f ?b ?c)" by code_simp
  have ac: "\<not> isNegative (sortCompare ?f ?a ?c)" by code_simp
  have s: "?a \<in> ?S" "?b \<in> ?S" "?c \<in> ?S" by simp_all
  from c [unfolded consistentComparator_def, THEN bspec, THEN bspec, THEN bspec, OF s]
  have "isNegative (sortCompare ?f ?a ?b) \<and> isNegative (sortCompare ?f ?b ?c)
          \<longrightarrow> isNegative (sortCompare ?f ?a ?c)"
    by (elim conjE)
  with ab bc ac show False by (simp only: simp_thms)
qed

text \<open>
  Claim C3 as stated, for every filtered sequence, fails on a column that mixes numbers
  and text: the four cells \<^verbatim>\<open>0.1\<close>, \<^verbatim>\<open>#N/A\<close>, \<^verbatim>\<open>.5\<close>, \<^verbatim>\<open>0.1\<close>, sorted
  ascending. \<^verbatim>\<open>0.1\<close> and \<^verbatim>\<open>.5\<close> compare as numbers (\<^verbatim>\<open>0.1\<close> below \<^verbatim>\<open>.5\<close>), either of
  them and \<^verbatim>\<open>#N/A\<close> as text (\<^verbatim>\<open>.5\<close> below \<^verbatim>\<open>#N/A\<close> below \<^verbatim>\<open>0.1\<close>): the comparator runs in
  a circle and is no consistent comparator. The first and the last row tie on the key;
  V8's sort finds every row below its predecessor, takes the array for one descending
  run and reverses it, the two tied rows with it.
\<close>

theorem sort_stable_counterexample:
  "keyCompare collationOnSample 0
      \<lparr>data = [''0.1''], originalIndex = 0\<rparr> \<lparr>data = [''0.1''], originalIndex = 3\<rparr> = Finite 0
   \<and> sortRows collationOnSample arrayTimSortShort [\<lparr>col = 0, dir = Asc\<rparr>]
        [\<lparr>data = [''0.1''], originalIndex = 0\<rparr>,
         \<lparr>data = [''#N/A''], originalIndex = 1\<rparr>,
         \<lparr>data = [''.5''], originalIndex = 2\<rparr>,
         \<lparr>data = [''0.1''], originalIndex = 3\<rparr>]
      = [\<lparr>data = [''0.1''], originalIndex = 3\<rparr>,
         \<lparr>data = [''.5''], originalIndex = 2\<rparr>,
         \<lparr>data = [''#N/A''], originalIndex = 1\<rparr>,
         \<lparr>data = [''0.1''], originalIndex = 0\<rparr>]"
  by code_simp

text \<open>
  Claim C3, for the inputs on which the comparator is consistent. For every host sort
  that meets the ECMAScript contract, every sort stack, every collation and every
  sequence of display rows on which the comparator is a consistent comparator (as it is
  when every key cell parses as a finite number, \<open>comparator_numeric_consistent\<close>): two
  rows at positions \<open>i < j\<close> of the input that compare as zero on every key of the stack
  occur in the sorted output in the same order; the output has the rows of the input, as
  many, and when the input has no row twice (as the filter step's output) neither has
  the output, and there the position of the first row is below that of the second.
\<close>

theorem sort_stable_consistent:
  assumes "conformingSort hs"
    and "consistentComparator (comparator lc stack) (set filtered)"
    and "i < j" and "j < length filtered"
    and "\<forall>s \<in> set stack. keyCompare lc (col s) (filtered ! i) (filtered ! j) = Finite 0"
  shows "(\<exists>i' j'. i' < j' \<and> j' < length (sortRows lc hs stack filtered)
            \<and> sortRows lc hs stack filtered ! i' = filtered ! i
            \<and> sortRows lc hs stack filtered ! j' = filtered ! j)
       \<and> length (sortRows lc hs stack filtered) = length filtered
       \<and> set (sortRows lc hs stack filtered) = set filtered
       \<and> (distinct filtered \<longrightarrow>
            distinct (sortRows lc hs stack filtered)
          \<and> (\<forall>i' j'. i' < length filtered \<and> j' < length filtered
                \<and> sortRows lc hs stack filtered ! i' = filtered ! i
                \<and> sortRows lc hs stack filtered ! j' = filtered ! j \<longrightarrow> i' < j'))"
proof -
  define out where "out = sortRows lc hs stack filtered"
  have inp: "subseq [filtered ! i, filtered ! j] filtered"
    using assms(3,4) by (rule subseq_pair_nth)
  have tie: "comparator lc stack (filtered ! i) (filtered ! j) = Finite 0"
    using assms(5) by (rule comparator_all_zero)
  have "subseq [filtered ! i, filtered ! j] out"
    unfolding out_def by (rule sortRows_keeps_order [OF assms(1,2) inp tie])
  then have "\<exists>i0 j0. i0 < j0 \<and> j0 < length out
      \<and> out ! i0 = filtered ! i \<and> out ! j0 = filtered ! j"
    by (rule subseq_pair_positions)
  then obtain i0 j0 where pos: "i0 < j0" "j0 < length out"
      "out ! i0 = filtered ! i" "out ! j0 = filtered ! j"
    by (elim exE conjE)
  have ms: "mset out = mset filtered"
    unfolding out_def by (rule sortRows_conforming(1) [OF assms(1,2)])
  have len: "length out = length filtered" using ms by (rule mset_eq_length)
  have set: "set out = set filtered" using ms by (rule mset_eq_setD)
  have first: "\<exists>i' j'. i' < j' \<and> j' < length out \<and> out ! i' = filtered ! i \<and> out ! j' = filtered ! j"
    using pos by (intro exI conjI)
  have last: "distinct out
          \<and> (\<forall>i' j'. i' < length filtered \<and> j' < length filtered
                \<and> out ! i' = filtered ! i \<and> out ! j' = filtered ! j \<longrightarrow> i' < j')"
    if df: "distinct filtered"
  proof (intro conjI allI impI)
    show d: "distinct out" using df ms by (simp only: mset_eq_imp_distinct_iff [OF ms])
    fix i' j'
    assume h: "i' < length filtered \<and> j' < length filtered
                \<and> out ! i' = filtered ! i \<and> out ! j' = filtered ! j"
    show "i' < j'"
    proof (rule distinct_positions_ordered [OF d pos(1,2)])
      show "i' < length out" "j' < length out" using h len by simp_all
      show "out ! i' = out ! i0" "out ! j' = out ! j0" using h pos by simp_all
    qed
  qed
  have last': "distinct filtered \<longrightarrow>
          distinct out
          \<and> (\<forall>i' j'. i' < length filtered \<and> j' < length filtered
                \<and> out ! i' = filtered ! i \<and> out ! j' = filtered ! j \<longrightarrow> i' < j')"
  proof (rule impI)
    assume "distinct filtered"
    then show "distinct out
          \<and> (\<forall>i' j'. i' < length filtered \<and> j' < length filtered
                \<and> out ! i' = filtered ! i \<and> out ! j' = filtered ! j \<longrightarrow> i' < j')"
      by (rule last)
  qed
  note all = conjI [OF first conjI [OF len conjI [OF set last']]]
  show ?thesis using all unfolding out_def .
qed

theorem sort_stable_consistent_witness:
  "\<exists>i' j'. i' < j'
     \<and> j' < length (sortRows (\<lambda>x y l opts. 0) arrayTimSortShort [\<lparr>col = 1, dir = Asc\<rparr>]
                     [\<lparr>data = [''b'', ''1''], originalIndex = 0\<rparr>,
                      \<lparr>data = [''a'', ''1''], originalIndex = 1\<rparr>,
                      \<lparr>data = [''c'', ''0''], originalIndex = 2\<rparr>])
     \<and> sortRows (\<lambda>x y l opts. 0) arrayTimSortShort [\<lparr>col = 1, dir = Asc\<rparr>]
                     [\<lparr>data = [''b'', ''1''], originalIndex = 0\<rparr>,
                      \<lparr>data = [''a'', ''1''], originalIndex = 1\<rparr>,
                      \<lparr>data = [''c'', ''0''], originalIndex = 2\<rparr>] ! i'
         = \<lparr>data = [''b'', ''1''], originalIndex = 0\<rparr>
     \<and> sortRows (\<lambda>x y l opts. 0) arrayTimSortShort [\<lparr>col = 1, dir = Asc\<rparr>]
                     [\<lparr>data = [''b'', ''1''], originalIndex = 0\<rparr>,
                      \<lparr>data = [''a'', ''1''], originalIndex = 1\<rparr>,
                      \<lparr>data = [''c'', ''0''], originalIndex = 2\<rparr>] ! j'
         = \<lparr>data = [''a'', ''1''], originalIndex = 1\<rparr>"
proof -
  let ?lc = "(\<lambda>x y l opts. 0) :: localeCompare"
  let ?f = "[\<lparr>data = [''b'', ''1''], originalIndex = 0\<rparr>,
             \<lparr>data = [''a'', ''1''], originalIndex = 1\<rparr>,
             \<lparr>data = [''c'', ''0''], originalIndex = 2\<rparr>]"
  let ?stack = "[\<lparr>col = 1, dir = Asc\<rparr>]"
  have h0: "conformingSort (arrayTimSortShort :: hostSort)" by (rule arrayTimSortShort_conforming)
  have "\<forall>r \<in> set ?f. \<forall>s \<in> set ?stack. \<exists>q. parseFloat (cellValue (data r) (col s)) = Finite q"
    by (simp add: cellValue_def parseFloat_def isWhiteSpace_def isDigit_def
        digitsValue_def digitValue_def exponentPart_def pow10_def Let_def)
  then have hc: "consistentComparator (comparator ?lc ?stack) (set ?f)"
    by (rule comparator_numeric_consistent)
  have h1: "(0::nat) < 1" and h2: "1 < length ?f" by simp_all
  have h3: "\<forall>s \<in> set ?stack. keyCompare ?lc (col s) (?f ! 0) (?f ! 1) = Finite 0"
    by (simp add: keyCompare_def cellValue_def parseFloat_def isWhiteSpace_def isDigit_def
        digitsValue_def digitValue_def exponentPart_def pow10_def Let_def)
  from sort_stable_consistent [OF h0 hc h1 h2 h3, THEN conjunct1] show ?thesis by simp
qed

end
